theory Spec2Isabelle
  imports Complex_Main "HOL-Library.AList"
begin

section \<open>Python strings\<close>

text \<open>
  A Python \<open>str\<close> is modelled as a \<open>string\<close>: a list of characters, each character
  a code point below 256. On these code points \<open>str.lower\<close> moves the ASCII capitals
  and the Latin-1 capitals (C0 to DE without D7) up by 32 and leaves the rest.
\<close>

datatype py_error = ValueError | TypeError | AttributeError | ExpatError | OtherError

definition py_lower_char :: "char \<Rightarrow> char" where
  "py_lower_char c =
     (let n = (of_char c :: nat)
      in if (65 \<le> n \<and> n \<le> 90) \<or> (192 \<le> n \<and> n \<le> 222 \<and> n \<noteq> 215)
         then char_of (n + 32) else c)"

definition py_lower :: "string \<Rightarrow> string" where
  "py_lower s = map py_lower_char s"

text \<open>\<open>s.find(c, start)\<close> for a single character \<open>c\<close>: the first index at or after
  \<open>start\<close> holding \<open>c\<close>, or -1.\<close>

definition py_find :: "string \<Rightarrow> char \<Rightarrow> nat \<Rightarrow> int" where
  "py_find s c start =
     (let r = drop start s
      in if c \<in> set r then int (start + length (takeWhile (\<lambda>x. x \<noteq> c) r)) else - 1)"

text \<open>\<open>s.rfind(c)\<close>: the last index holding \<open>c\<close>, or -1.\<close>

definition py_rfind :: "string \<Rightarrow> char \<Rightarrow> int" where
  "py_rfind s c =
     (if c \<in> set s then int (length s) - 1 - int (length (takeWhile (\<lambda>x. x \<noteq> c) (rev s)))
      else - 1)"

text \<open>The slices \<open>s[:i]\<close> and \<open>s[i:]\<close>; a negative index counts from the end.\<close>

definition py_upto :: "string \<Rightarrow> int \<Rightarrow> string" where
  "py_upto s i = (if i < 0 then take (length s - nat (- i)) s else take (nat i) s)"

definition py_from :: "string \<Rightarrow> int \<Rightarrow> string" where
  "py_from s i = (if i < 0 then drop (length s - nat (- i)) s else drop (nat i) s)"

text \<open>\<open>s.split(c, 1)\<close> when \<open>c\<close> occurs in \<open>s\<close>: the text before the first \<open>c\<close> and
  the text after it.\<close>

definition split_first :: "char \<Rightarrow> string \<Rightarrow> string \<times> string" where
  "split_first c s = (takeWhile (\<lambda>x. x \<noteq> c) s, drop 1 (dropWhile (\<lambda>x. x \<noteq> c) s))"

section \<open>urllib.parse\<close>

text \<open>
  \<open>src/sfrog/utils/url_tools.py\<close> is written on top of \<open>urlparse\<close> and \<open>urlunparse\<close>
  of the standard library, whose text in \<open>Lib/urllib/parse.py\<close> is not the same in
  every revision of CPython. The functions are embedded here for \<open>str\<close> arguments and
  the default arguments \<open>scheme=''\<close>, \<open>allow_fragments=True\<close>, from the revisions
  3.11.10 and 3.12.3. What the two revisions do differently in the functions used here
  is a field of the record \<open>urllib\<close>, so that a revision is a value of the record:
  \<^item> \<open>is_ipv6\<close>: whether \<open>ipaddress.ip_address\<close> accepts a bracketed host and returns
    an IPv6 address (a parameter in every revision);
  \<^item> \<open>uses_netloc\<close> and \<open>uses_params\<close>: the two lists of schemes;
  \<^item> \<open>checks_bracketed_netloc\<close>: \<open>urlsplit\<close> checks a netloc with brackets by
    \<open>_check_bracketed_netloc\<close> (3.12.3), and not by \<open>_check_bracketed_host\<close> on
    the text between the brackets (3.11.10);
  \<^item> \<open>authority_before_slashes\<close>: \<open>urlunsplit\<close> writes \<open>//\<close> and the netloc in
    front of a path that begins with \<open>//\<close> also when the netloc is empty (3.11.10);
    otherwise such a path gets them only when there is a netloc (3.12.3).

  A \<open>ValueError\<close> is the value \<open>Inl ValueError\<close>. \<open>_checknetloc\<close> raises only when
  the NFKC form of the netloc holds one of \<open>/?#@:\<close> that the netloc does not; no code
  point below 256 normalises to such a character, so it never raises here.
\<close>

record urllib =
  is_ipv6 :: "string \<Rightarrow> bool"
  uses_netloc :: "string list"
  uses_params :: "string list"
  checks_bracketed_netloc :: bool
  authority_before_slashes :: bool

text \<open>\<open>Lib/urllib/parse.py\<close> of CPython 3.11.10.\<close>

definition cpython_3_11_10 :: "(string \<Rightarrow> bool) \<Rightarrow> urllib" where
  "cpython_3_11_10 ip =
     \<lparr>is_ipv6 = ip,
      uses_netloc = ['''', ''ftp'', ''http'', ''gopher'', ''nntp'', ''telnet'',
                     ''imap'', ''wais'', ''file'', ''mms'', ''https'', ''shttp'',
                     ''snews'', ''prospero'', ''rtsp'', ''rtsps'', ''rtspu'', ''rsync'',
                     ''svn'', ''svn+ssh'', ''sftp'', ''nfs'', ''git'', ''git+ssh'',
                     ''ws'', ''wss''],
      uses_params = ['''', ''ftp'', ''hdl'', ''prospero'', ''http'', ''imap'',
                     ''https'', ''shttp'', ''rtsp'', ''rtsps'', ''rtspu'', ''sip'',
                     ''sips'', ''mms'', ''sftp'', ''tel''],
      checks_bracketed_netloc = False,
      authority_before_slashes = True\<rparr>"

text \<open>\<open>Lib/urllib/parse.py\<close> of CPython 3.12.3.\<close>

definition cpython_3_12_3 :: "(string \<Rightarrow> bool) \<Rightarrow> urllib" where
  "cpython_3_12_3 ip =
     \<lparr>is_ipv6 = ip,
      uses_netloc = ['''', ''ftp'', ''http'', ''gopher'', ''nntp'', ''telnet'',
                     ''imap'', ''wais'', ''file'', ''mms'', ''https'', ''shttp'',
                     ''snews'', ''prospero'', ''rtsp'', ''rtsps'', ''rtspu'', ''rsync'',
                     ''svn'', ''svn+ssh'', ''sftp'', ''nfs'', ''git'', ''git+ssh'',
                     ''ws'', ''wss'', ''itms-services''],
      uses_params = ['''', ''ftp'', ''hdl'', ''prospero'', ''http'', ''imap'',
                     ''https'', ''shttp'', ''rtsp'', ''rtsps'', ''rtspu'', ''sip'',
                     ''sips'', ''mms'', ''sftp'', ''tel''],
      checks_bracketed_netloc = True,
      authority_before_slashes = False\<rparr>"

definition scheme_chars :: "string" where
  "scheme_chars = ''abcdefghijklmnopqrstuvwxyzABCDEFGHIJKLMNOPQRSTUVWXYZ0123456789+-.''"

text \<open>\<open>_WHATWG_C0_CONTROL_OR_SPACE\<close>: the code points 0 to 32.\<close>

definition c0_control_or_space :: "char \<Rightarrow> bool" where
  "c0_control_or_space c = ((of_char c :: nat) \<le> 32)"

text \<open>\<open>_UNSAFE_URL_BYTES_TO_REMOVE\<close>: tab, carriage return, line feed.\<close>

definition unsafe_url_byte :: "char \<Rightarrow> bool" where
  "unsafe_url_byte c = (c = CHR 0x09 \<or> c = CHR 0x0D \<or> c = CHR 0x0A)"

definition ascii_alpha :: "char \<Rightarrow> bool" where
  "ascii_alpha c =
     (let n = (of_char c :: nat) in (65 \<le> n \<and> n \<le> 90) \<or> (97 \<le> n \<and> n \<le> 122))"

definition hex_digit :: "char \<Rightarrow> bool" where
  "hex_digit c = (c \<in> set ''abcdefABCDEF0123456789'')"

text \<open>\<open>_splitnetloc(url, 2)\<close>: the netloc runs from index 2 to the first of \<open>/?#\<close>.\<close>

definition splitnetloc :: "string \<Rightarrow> string \<times> string" where
  "splitnetloc url =
     (let delim0 = int (length url);
          w1 = py_find url (CHR ''/'') 2;
          delim1 = (if w1 \<ge> 0 then min delim0 w1 else delim0);
          w2 = py_find url (CHR ''?'') 2;
          delim2 = (if w2 \<ge> 0 then min delim1 w2 else delim1);
          w3 = py_find url (CHR ''#'') 2;
          delim3 = (if w3 \<ge> 0 then min delim2 w3 else delim2)
      in (drop 2 (py_upto url delim3), py_from url delim3))"

text \<open>\<open>_check_bracketed_host\<close>: True when it returns, False when it raises. The
  regular expression is \<open>\Av[a-fA-F0-9]+\..+\Z\<close>, where the dot matches anything but
  a line feed.\<close>

definition ipvfuture_match :: "string \<Rightarrow> bool" where
  "ipvfuture_match hostname =
     (case hostname of
        [] \<Rightarrow> False
      | c # rest \<Rightarrow>
          c = CHR ''v'' \<and> takeWhile hex_digit rest \<noteq> [] \<and>
          (case dropWhile hex_digit rest of
             [] \<Rightarrow> False
           | d # tail \<Rightarrow> d = CHR ''.'' \<and> tail \<noteq> [] \<and> CHR 0x0A \<notin> set tail))"

definition check_bracketed_host :: "(string \<Rightarrow> bool) \<Rightarrow> string \<Rightarrow> bool" where
  "check_bracketed_host ip hostname =
     (if take 1 hostname = ''v'' then ipvfuture_match hostname else ip hostname)"

text \<open>\<open>netloc.partition('[')[2].partition(']')[0]\<close>.\<close>

definition bracketed_host :: "string \<Rightarrow> string" where
  "bracketed_host netloc =
     takeWhile (\<lambda>x. x \<noteq> CHR '']'') (drop 1 (dropWhile (\<lambda>x. x \<noteq> CHR ''['') netloc))"

text \<open>The scheme test of \<open>urlsplit\<close>: the text before the first colon is the scheme
  when it begins with an ASCII letter and holds scheme characters only.\<close>

definition split_scheme :: "string \<Rightarrow> string \<times> string" where
  "split_scheme url =
     (let i = py_find url (CHR '':'') 0
      in if i > 0 \<and> ascii_alpha (hd url) \<and> (\<forall>c \<in> set (py_upto url i). c \<in> set scheme_chars)
         then (py_lower (py_upto url i), py_from url (i + 1))
         else ([], url))"

text \<open>\<open>netloc.rpartition('@')[2]\<close>: the text after the last \<open>@\<close>, the whole text
  when it has none.\<close>

definition after_last_at :: "string \<Rightarrow> string" where
  "after_last_at netloc = rev (takeWhile (\<lambda>x. x \<noteq> CHR ''@'') (rev netloc))"

text \<open>\<open>_check_bracketed_netloc\<close>: True when it returns, False when it raises.\<close>

definition check_bracketed_netloc :: "(string \<Rightarrow> bool) \<Rightarrow> string \<Rightarrow> bool" where
  "check_bracketed_netloc ip netloc =
     (let hostname_and_port = after_last_at netloc;
          before_bracket = takeWhile (\<lambda>x. x \<noteq> CHR ''['') hostname_and_port;
          have_open_br = (CHR ''['' \<in> set hostname_and_port);
          bracketed = drop 1 (dropWhile (\<lambda>x. x \<noteq> CHR ''['') hostname_and_port)
      in if have_open_br
         then (if before_bracket \<noteq> [] then False
               else (let hostname = takeWhile (\<lambda>x. x \<noteq> CHR '']'') bracketed;
                         port = drop 1 (dropWhile (\<lambda>x. x \<noteq> CHR '']'') bracketed)
                     in if port \<noteq> [] \<and> take 1 port \<noteq> '':'' then False
                        else check_bracketed_host ip hostname))
         else check_bracketed_host ip (takeWhile (\<lambda>x. x \<noteq> CHR '':'') hostname_and_port))"

text \<open>The two checks of \<open>urlsplit\<close> on a netloc, each of which raises
  \<open>ValueError\<close>: brackets come in pairs, and a netloc with brackets is valid.\<close>

definition bracketed_netloc_ok :: "urllib \<Rightarrow> string \<Rightarrow> bool" where
  "bracketed_netloc_ok lib netloc =
     (\<not> ((CHR ''['' \<in> set netloc \<and> CHR '']'' \<notin> set netloc) \<or>
         (CHR '']'' \<in> set netloc \<and> CHR ''['' \<notin> set netloc)) \<and>
      (CHR ''['' \<in> set netloc \<and> CHR '']'' \<in> set netloc \<longrightarrow>
         (if checks_bracketed_netloc lib
          then check_bracketed_netloc (is_ipv6 lib) netloc
          else check_bracketed_host (is_ipv6 lib) (bracketed_host netloc))))"

text \<open>The end of \<open>urlsplit\<close>: the fragment is split off at the first \<open>#\<close>, then the
  query at the first \<open>?\<close>. The result is (path, query, fragment).\<close>

definition split_fragment_query :: "string \<Rightarrow> string \<times> string \<times> string" where
  "split_fragment_query url =
     (let (url1, fragment) =
            (if CHR ''#'' \<in> set url then split_first (CHR ''#'') url else (url, []));
          (url2, query) =
            (if CHR ''?'' \<in> set url1 then split_first (CHR ''?'') url1 else (url1, []))
      in (url2, query, fragment))"

text \<open>\<open>urlsplit\<close> returns the 5-tuple (scheme, netloc, path, query, fragment).\<close>

definition urlsplit ::
  "urllib \<Rightarrow> string \<Rightarrow> py_error + (string \<times> string \<times> string \<times> string \<times> string)" where
  "urlsplit lib url0 =
     (let url1 = dropWhile c0_control_or_space url0;
          url2 = filter (\<lambda>c. \<not> unsafe_url_byte c) url1;
          (scheme, url3) = split_scheme url2
      in if take 2 url3 = ''//''
         then (let (netloc, url4) = splitnetloc url3
               in if \<not> bracketed_netloc_ok lib netloc then Inl ValueError
                  else (case split_fragment_query url4 of
                          (url5, query, fragment) \<Rightarrow> Inr (scheme, netloc, url5, query, fragment)))
         else (case split_fragment_query url3 of
                 (url5, query, fragment) \<Rightarrow> Inr (scheme, [], url5, query, fragment)))"

definition splitparams :: "string \<Rightarrow> string \<times> string" where
  "splitparams url =
     (if CHR ''/'' \<in> set url
      then (let i = py_find url (CHR '';'') (nat (py_rfind url (CHR ''/'')))
            in if i < 0 then (url, '''') else (py_upto url i, py_from url (i + 1)))
      else (let i = py_find url (CHR '';'') 0
            in (py_upto url i, py_from url (i + 1))))"

record ParseResult =
  scheme :: string
  netloc :: string
  path :: string
  params :: string
  query :: string
  fragment :: string

definition urlparse :: "urllib \<Rightarrow> string \<Rightarrow> py_error + ParseResult" where
  "urlparse lib url =
     (case urlsplit lib url of
        Inl e \<Rightarrow> Inl e
      | Inr (sch, nl, u, q, f) \<Rightarrow>
          (let (u', ps) = (if sch \<in> set (uses_params lib) \<and> CHR '';'' \<in> set u
                           then splitparams u else (u, ''''))
           in Inr \<lparr>scheme = sch, netloc = nl, path = u', params = ps,
                    query = q, fragment = f\<rparr>))"

text \<open>\<open>urlunsplit\<close>. The condition under which it writes \<open>//\<close> and the netloc is
  \<open>netloc or (scheme and scheme in uses_netloc) or url[:2] == '//'\<close> in 3.11.10 and
  \<open>netloc or (scheme and scheme in uses_netloc and url[:2] != '//')\<close> in 3.12.3.\<close>

definition urlunsplit ::
  "urllib \<Rightarrow> string \<times> string \<times> string \<times> string \<times> string \<Rightarrow> string" where
  "urlunsplit lib c =
     (case c of (sch, nl, url, q, f) \<Rightarrow>
        (let url1 = (if (if authority_before_slashes lib
                         then nl \<noteq> '''' \<or> (sch \<noteq> '''' \<and> sch \<in> set (uses_netloc lib)) \<or>
                              take 2 url = ''//''
                         else nl \<noteq> '''' \<or> (sch \<noteq> '''' \<and> sch \<in> set (uses_netloc lib) \<and>
                              take 2 url \<noteq> ''//''))
                     then ''//'' @ nl @ (if url \<noteq> '''' \<and> take 1 url \<noteq> ''/'' then ''/'' @ url else url)
                     else url);
             url2 = (if sch \<noteq> '''' then sch @ '':'' @ url1 else url1);
             url3 = (if q \<noteq> '''' then url2 @ ''?'' @ q else url2)
         in if f \<noteq> '''' then url3 @ ''#'' @ f else url3))"

definition urlunparse ::
  "urllib \<Rightarrow> string \<times> string \<times> string \<times> string \<times> string \<times> string \<Rightarrow> string" where
  "urlunparse lib c =
     (case c of (sch, nl, url, ps, q, f) \<Rightarrow>
        urlunsplit lib (sch, nl, (if ps \<noteq> '''' then url @ '';'' @ ps else url), q, f))"

section \<open>URL tools\<close>

text \<open>\<open>CANONICAL_SCHEME_RE.match(s)\<close> for the pattern \<open>^https?$\<close>; the dollar also
  matches before a final line feed.\<close>

definition CANONICAL_SCHEME_RE_match :: "string \<Rightarrow> bool" where
  "CANONICAL_SCHEME_RE_match s =
     (s = ''http'' \<or> s = ''https'' \<or> s = ''http'' @ [CHR 0x0A] \<or> s = ''https'' @ [CHR 0x0A])"

definition is_same_domain :: "urllib \<Rightarrow> string \<Rightarrow> string \<Rightarrow> py_error + bool" where
  "is_same_domain lib url base =
     (case urlparse lib url of
        Inl e \<Rightarrow> Inl e
      | Inr parsed_url \<Rightarrow>
          (case urlparse lib base of
             Inl e \<Rightarrow> Inl e
           | Inr parsed_base \<Rightarrow> Inr (netloc parsed_url = netloc parsed_base)))"

definition canonicalize :: "urllib \<Rightarrow> string \<Rightarrow> py_error + string" where
  "canonicalize lib url =
     (case urlparse lib url of
        Inl e \<Rightarrow> Inl e
      | Inr parsed \<Rightarrow>
          (let scheme' = (if CANONICAL_SCHEME_RE_match (py_lower (scheme parsed))
                          then py_lower (scheme parsed) else ''http'');
               netloc' = py_lower (netloc parsed);
               path' = (if path parsed \<noteq> '''' then path parsed else ''/'')
           in Inr (urlunparse lib (scheme', netloc', path', '''', query parsed, ''''))))"

definition is_allowed_scheme :: "urllib \<Rightarrow> string \<Rightarrow> py_error + bool" where
  "is_allowed_scheme lib url =
     (case urlparse lib url of
        Inl e \<Rightarrow> Inl e
      | Inr parsed \<Rightarrow> Inr (scheme parsed \<in> {''http'', ''https'', ''''}))"

section \<open>Python dictionaries and truth values\<close>

text \<open>
  A \<open>dict\<close> is an association list with distinct keys in insertion order:
  \<open>d[k] = v\<close> is \<open>AList.update k v d\<close> (an existing key keeps its place, a new key
  goes to the end) and a lookup is \<open>map_of d k\<close>.
\<close>

definition dict_get :: "('k \<times> 'v) list \<Rightarrow> 'k \<Rightarrow> 'v \<Rightarrow> 'v" where
  "dict_get d k dflt = (case map_of d k of None \<Rightarrow> dflt | Some v \<Rightarrow> v)"

text \<open>The comprehension \<open>{k: v for k, v in items}\<close>.\<close>

definition dict_of_items :: "('k \<times> 'v) list \<Rightarrow> ('k \<times> 'v) list" where
  "dict_of_items items = foldl (\<lambda>d (k, v). AList.update k v d) [] items"

text \<open>Truth of an \<open>Optional[str]\<close> or \<open>Optional[bytes]\<close>, and of an
  \<open>Optional[int]\<close>.\<close>

definition truthy_str :: "string option \<Rightarrow> bool" where
  "truthy_str x = (case x of None \<Rightarrow> False | Some s \<Rightarrow> s \<noteq> [])"

definition truthy_int :: "int option \<Rightarrow> bool" where
  "truthy_int x = (case x of None \<Rightarrow> False | Some n \<Rightarrow> n \<noteq> 0)"

text \<open>\<open>sub in s\<close> for strings.\<close>

fun py_contains :: "string \<Rightarrow> string \<Rightarrow> bool" where
  "py_contains sub [] = (sub = [])"
| "py_contains sub (c # cs) = (take (length sub) (c # cs) = sub \<or> py_contains sub cs)"

text \<open>\<open>str.isspace\<close> on one code point below 256, and \<open>str.strip()\<close>.\<close>

definition py_isspace :: "char \<Rightarrow> bool" where
  "py_isspace c =
     (let n = (of_char c :: nat)
      in (9 \<le> n \<and> n \<le> 13) \<or> (28 \<le> n \<and> n \<le> 32) \<or> n = 133 \<or> n = 160)"

definition py_strip :: "string \<Rightarrow> string" where
  "py_strip s = rev (dropWhile py_isspace (rev (dropWhile py_isspace s)))"

section \<open>Fetcher\<close>

text \<open>
  \<open>FetchResult\<close> of \<open>src/sfrog/crawler/fetcher.py\<close>. The fields of the three
  dataclasses that share names (\<open>url\<close>, \<open>status\<close>, \<open>title\<close>, ...) carry the prefix of
  their class. Bytes are a \<open>string\<close>; seconds are a \<open>real\<close>.
\<close>

record FetchResult =
  fr_url :: string
  fr_status :: "int option"
  fr_headers :: "(string \<times> string) list"
  fr_content :: "string option"
  fr_elapsed :: real
  fr_redirected_url :: "string option"
  fr_error :: "string option"

text \<open>
  What \<open>session.get(url, allow_redirects=True)\<close> and \<open>resp.read()\<close> do is the
  network's answer: a response (its status, its header items as the server sent them,
  its body and \<open>str(resp.url)\<close>), an \<open>asyncio.TimeoutError\<close>, an
  \<open>aiohttp.ClientError\<close> with its message, or any other exception, which \<open>fetch\<close>
  does not catch. Each carries the seconds elapsed.
\<close>

datatype http_outcome =
    Responded int "(string \<times> string) list" string string real
  | TimedOut real
  | ClientFailed string real
  | Raised py_error

definition fetch :: "string \<Rightarrow> http_outcome \<Rightarrow> py_error + FetchResult" where
  "fetch url outcome =
     (case outcome of
        Responded st items body final t \<Rightarrow>
          Inr \<lparr>fr_url = url, fr_status = Some st, fr_headers = dict_of_items items,
               fr_content = Some body, fr_elapsed = t,
               fr_redirected_url = (if final \<noteq> url then Some final else None),
               fr_error = None\<rparr>
      | TimedOut t \<Rightarrow>
          Inr \<lparr>fr_url = url, fr_status = None, fr_headers = [], fr_content = None,
               fr_elapsed = t, fr_redirected_url = None, fr_error = Some ''timeout''\<rparr>
      | ClientFailed msg t \<Rightarrow>
          Inr \<lparr>fr_url = url, fr_status = None, fr_headers = [], fr_content = None,
               fr_elapsed = t, fr_redirected_url = None, fr_error = Some msg\<rparr>
      | Raised e \<Rightarrow> Inl e)"

section \<open>HTML parser and robots rules\<close>

record ParsedPage =
  pp_url :: string
  pp_title :: "string option"
  pp_meta_description :: "string option"
  pp_canonical :: "string option"
  pp_headings :: "(string \<times> string) list"
  pp_internal_links :: "string list"
  pp_external_links :: "string list"
  pp_images :: "string list"

text \<open>
  \<open>RobotsRules\<close> of \<open>src/sfrog/crawler/robots.py\<close>. The object that
  \<open>Robots.parse\<close> returns is modelled by its method \<open>allowed(url, user_agent)\<close>.
\<close>

type_synonym robots_obj = "string \<Rightarrow> string \<Rightarrow> py_error + bool"

record RobotsRules =
  rr_user_agent :: string
  rr_robots :: "robots_obj option"

text \<open>\<open>PageData\<close> of \<open>src/sfrog/crawler/manager.py\<close>.\<close>

record PageData =
  pd_url :: string
  pd_status :: "int option"
  pd_title :: "string option"
  pd_meta_description :: "string option"
  pd_canonical :: "string option"
  pd_headings :: "(string \<times> string) list"
  pd_internal_links :: "string list"
  pd_external_links :: "string list"
  pd_h1_count :: int
  pd_content_hash :: "string option"
  pd_response_time :: real
  pd_redirect_target :: "string option"
  pd_error :: "string option"

text \<open>
  The libraries and collaborators the crawl engine calls, as parameters:
  \<^item> \<open>urllib\<close>: the revision of \<open>urllib.parse\<close>, see \<open>urlparse\<close>;
  \<^item> \<open>Robots_parse\<close>: \<open>Robots.parse\<close> of \<open>robots_txt_parser\<close>, \<open>None\<close> when the
    import failed (\<open>Robots = None\<close>);
  \<^item> \<open>xmltodict_parse\<close>: \<open>xmltodict.parse\<close>;
  \<^item> \<open>urljoin\<close> and \<open>yarl_with_fragment_empty\<close>: \<open>urllib.parse.urljoin\<close> and
    \<open>str(URL(joined).with_fragment(""))\<close> of \<open>yarl\<close>;
  \<^item> \<open>yarl_with_path\<close>: \<open>str(URL(url).with_path(path))\<close>;
  \<^item> \<open>decode_utf8_ignore\<close>: \<open>bytes.decode("utf-8", errors="ignore")\<close>;
  \<^item> \<open>md5_hexdigest\<close>: \<open>hashlib.md5(content).hexdigest()\<close>;
  \<^item> \<open>parse_html\<close>: \<open>parse_html\<close> of \<open>src/sfrog/crawler/parser.py\<close>, which is
    written on the \<open>selectolax\<close> parser;
  \<^item> \<open>progress_callback\<close>: the caller's callback, with the exception it raises, if
    any.
\<close>

datatype xml = XNone | XStr string | XDict "(string \<times> xml) list" | XList "xml list"

record env =
  urllib :: urllib
  Robots_parse :: "(string \<Rightarrow> py_error + robots_obj) option"
  xmltodict_parse :: "string \<Rightarrow> py_error + (string \<times> xml) list"
  urljoin :: "string \<Rightarrow> string \<Rightarrow> py_error + string"
  yarl_with_fragment_empty :: "string \<Rightarrow> py_error + string"
  yarl_with_path :: "string \<Rightarrow> string \<Rightarrow> py_error + string"
  decode_utf8_ignore :: "string \<Rightarrow> string"
  md5_hexdigest :: "string \<Rightarrow> string"
  parse_html :: "string \<Rightarrow> string \<Rightarrow> string \<Rightarrow> py_error + ParsedPage"
  progress_callback :: "(PageData \<Rightarrow> py_error option) option"

definition allows :: "env \<Rightarrow> RobotsRules \<Rightarrow> string \<Rightarrow> bool" where
  "allows ev rules url =
     (if Robots_parse ev = None \<or> rr_robots rules = None then True
      else (case the (rr_robots rules) url (rr_user_agent rules) of
              Inl e \<Rightarrow> True
            | Inr b \<Rightarrow> b))"

definition build_robots :: "env \<Rightarrow> string \<Rightarrow> string option \<Rightarrow> RobotsRules" where
  "build_robots ev user_agent text =
     (let robots =
            (if truthy_str text \<and> Robots_parse ev \<noteq> None
             then (case the (Robots_parse ev) (the text) of
                     Inl e \<Rightarrow> None
                   | Inr r \<Rightarrow> Some r)
             else None)
      in \<lparr>rr_user_agent = user_agent, rr_robots = robots\<rparr>)"

section \<open>Sitemap parser\<close>

definition normalize_url :: "env \<Rightarrow> string \<Rightarrow> string \<Rightarrow> py_error + string" where
  "normalize_url ev base link =
     (case urljoin ev base link of
        Inl e \<Rightarrow> Inl e
      | Inr joined \<Rightarrow> yarl_with_fragment_empty ev joined)"

text \<open>Truth of a value that \<open>xmltodict\<close> returns.\<close>

definition truthy_xml :: "xml \<Rightarrow> bool" where
  "truthy_xml x =
     (case x of XNone \<Rightarrow> False | XStr s \<Rightarrow> s \<noteq> [] | XDict d \<Rightarrow> d \<noteq> [] | XList l \<Rightarrow> l \<noteq> [])"

text \<open>\<open>x.get(key, dflt)\<close>: only a dict has the method.\<close>

definition xml_get :: "xml \<Rightarrow> string \<Rightarrow> xml \<Rightarrow> py_error + xml" where
  "xml_get x key dflt =
     (case x of XDict d \<Rightarrow> Inr (dict_get d key dflt) | _ \<Rightarrow> Inl AttributeError)"

text \<open>The values \<open>for entry in entries\<close> runs over: the items of a list, the
  characters of a string, the keys of a dict; \<open>None\<close> is not iterable.\<close>

definition xml_iter :: "xml \<Rightarrow> py_error + xml list" where
  "xml_iter x =
     (case x of
        XList l \<Rightarrow> Inr l
      | XStr s \<Rightarrow> Inr (map (\<lambda>c. XStr [c]) s)
      | XDict d \<Rightarrow> Inr (map (\<lambda>kv. XStr (fst kv)) d)
      | XNone \<Rightarrow> Inl TypeError)"

text \<open>\<open>normalize_url(base_url, loc)\<close> for a value \<open>loc\<close> that is true: \<open>urljoin\<close>
  refuses to mix a \<open>str\<close> base with a value that is not a \<open>str\<close>.\<close>

definition normalize_loc :: "env \<Rightarrow> string \<Rightarrow> xml \<Rightarrow> py_error + string" where
  "normalize_loc ev base_url loc =
     (case loc of XStr s \<Rightarrow> normalize_url ev base_url s | _ \<Rightarrow> Inl TypeError)"

text \<open>The loop \<open>for entry in entries: loc = entry.get("loc"); if loc:
  urls.append(normalize_url(base_url, loc))\<close>, started with the list \<open>urls\<close>.\<close>

fun collect_locs :: "env \<Rightarrow> string \<Rightarrow> xml list \<Rightarrow> string list \<Rightarrow> py_error + string list" where
  "collect_locs ev base_url [] urls = Inr urls"
| "collect_locs ev base_url (entry # entries) urls =
     (case xml_get entry ''loc'' XNone of
        Inl e \<Rightarrow> Inl e
      | Inr loc \<Rightarrow>
          (if truthy_xml loc
           then (case normalize_loc ev base_url loc of
                   Inl e \<Rightarrow> Inl e
                 | Inr u \<Rightarrow> collect_locs ev base_url entries (urls @ [u]))
           else collect_locs ev base_url entries urls))"

text \<open>One branch of \<open>parse_sitemap\<close>: \<open>data[key].get(child, [])\<close>, the wrapping of a
  single dict, and the loop.\<close>

definition sitemap_branch ::
  "env \<Rightarrow> string \<Rightarrow> (string \<times> xml) list \<Rightarrow> string \<Rightarrow> string \<Rightarrow> py_error + string list" where
  "sitemap_branch ev base_url data key child =
     (case xml_get (dict_get data key XNone) child (XList []) of
        Inl e \<Rightarrow> Inl e
      | Inr entries0 \<Rightarrow>
          (let entries = (case entries0 of XDict d \<Rightarrow> XList [entries0] | _ \<Rightarrow> entries0)
           in case xml_iter entries of
                Inl e \<Rightarrow> Inl e
              | Inr es \<Rightarrow> collect_locs ev base_url es []))"

definition parse_sitemap :: "env \<Rightarrow> string \<Rightarrow> string \<Rightarrow> py_error + string list" where
  "parse_sitemap ev base_url text =
     (case xmltodict_parse ev text of
        Inl e \<Rightarrow> Inl e
      | Inr data \<Rightarrow>
          (if map_of data ''urlset'' \<noteq> None
           then sitemap_branch ev base_url data ''urlset'' ''url''
           else if map_of data ''sitemapindex'' \<noteq> None
           then sitemap_branch ev base_url data ''sitemapindex'' ''sitemap''
           else Inr []))"

text \<open>The \<open>try\<close> and \<open>except Exception\<close> around \<open>parse_sitemap\<close> in
  \<open>_prepare_seed_urls\<close>: on any exception the list of URLs is empty.\<close>

definition parse_sitemap_or_empty :: "env \<Rightarrow> string \<Rightarrow> string \<Rightarrow> string list" where
  "parse_sitemap_or_empty ev base_url text =
     (case parse_sitemap ev base_url text of Inl e \<Rightarrow> [] | Inr us \<Rightarrow> us)"

section \<open>Duplicate summary\<close>

definition summarize_duplicates ::
  "(string \<times> string list) list \<Rightarrow> (string \<times> string list) list" where
  "summarize_duplicates duplicate_map =
     filter (\<lambda>(hash, urls). length urls > 1) duplicate_map"

section \<open>Crawl manager\<close>

record CrawlResult =
  cr_pages :: "PageData list"
  cr_edges :: "(string \<times> string) list"
  cr_duplicate_map :: "(string \<times> string list) list"
  cr_broken_links :: "PageData list"

text \<open>A frontier entry: (url, depth, source).\<close>

type_synonym entry = "string \<times> int \<times> string option"

text \<open>
  A worker task of \<open>crawl()\<close> is suspended in \<open>queue.get()\<close>, or suspended in
  \<open>fetcher.fetch(url)\<close> inside \<open>_process_url\<close> for the entry it took, or ended by an
  exception that left \<open>_process_url\<close>.
\<close>

datatype worker = Waiting | Fetching entry | Failed py_error

text \<open>
  The state of \<open>CrawlManager\<close>, with the worker tasks that \<open>crawl()\<close> creates. The
  queue is unbounded, so \<open>queue.put\<close> never suspends; the semaphore has a permit for
  every worker, so \<open>async with self.sem\<close> never suspends. A worker therefore runs
  without interruption from \<open>queue.get()\<close> to \<open>fetcher.fetch\<close>, and from the answer
  of the fetch to the end of \<open>_process_url\<close>.
\<close>

record CrawlManager =
  base_url :: string
  max_depth :: int
  threads :: int
  user_agent :: string
  queue :: "entry list"
  visited :: "string set"
  enqueued :: "string set"
  edges :: "(string \<times> string) list"
  pages :: "PageData list"
  duplicate_map :: "(string \<times> string list) list"
  broken_links :: "PageData list"
  robots :: "RobotsRules option"
  workers :: "worker list"

text \<open>\<open>__init__\<close>: \<open>canonicalize\<close> may raise, and \<open>asyncio.Semaphore\<close> refuses a
  negative value.\<close>

definition CrawlManager_init ::
  "env \<Rightarrow> string \<Rightarrow> int \<Rightarrow> int \<Rightarrow> string \<Rightarrow> py_error + CrawlManager" where
  "CrawlManager_init ev base md th ua =
     (case canonicalize (urllib ev) base of
        Inl e \<Rightarrow> Inl e
      | Inr b \<Rightarrow>
          (if th < 0 then Inl ValueError
           else Inr \<lparr>base_url = b, max_depth = md, threads = th, user_agent = ua,
                     queue = [], visited = {}, enqueued = {}, edges = [], pages = [],
                     duplicate_map = [], broken_links = [], robots = None,
                     workers = []\<rparr>))"

text \<open>What happens to the frontier and to a URL, in the order it happens: an entry is
  put, an entry is taken, a URL passes the visited check of \<open>_process_url\<close>, a page is
  appended to \<open>pages\<close> for an entry.\<close>

datatype event = Put entry | Get entry | Visit string | Emit entry PageData

definition maybe_parse_html :: "env \<Rightarrow> CrawlManager \<Rightarrow> string \<Rightarrow> FetchResult \<Rightarrow> ParsedPage option" where
  "maybe_parse_html ev s url result =
     (let content_type =
            py_lower (py_strip (takeWhile (\<lambda>c. c \<noteq> CHR '';'')
                                   (dict_get (fr_headers result) ''Content-Type'' [])))
      in if content_type \<noteq> [] \<and> \<not> py_contains ''html'' content_type then None
         else if \<not> truthy_str (fr_content result) then None
         else (case parse_html ev url (base_url s)
                      (decode_utf8_ignore ev (the (fr_content result))) of
                 Inl e \<Rightarrow> None
               | Inr p \<Rightarrow> Some p))"

definition build_page :: "FetchResult \<Rightarrow> ParsedPage option \<Rightarrow> string option \<Rightarrow> PageData" where
  "build_page result parsed content_hash =
     (let headings = (case parsed of None \<Rightarrow> [] | Some p \<Rightarrow> pp_headings p);
          h1_count = int (length (filter (\<lambda>(tag, _). tag = ''h1'') headings))
      in \<lparr>pd_url = fr_url result,
          pd_status = fr_status result,
          pd_title = (case parsed of None \<Rightarrow> None | Some p \<Rightarrow> pp_title p),
          pd_meta_description = (case parsed of None \<Rightarrow> None | Some p \<Rightarrow> pp_meta_description p),
          pd_canonical = (case parsed of None \<Rightarrow> None | Some p \<Rightarrow> pp_canonical p),
          pd_headings = headings,
          pd_internal_links = (case parsed of None \<Rightarrow> [] | Some p \<Rightarrow> pp_internal_links p),
          pd_external_links = (case parsed of None \<Rightarrow> [] | Some p \<Rightarrow> pp_external_links p),
          pd_h1_count = h1_count,
          pd_content_hash = content_hash,
          pd_response_time = fr_elapsed result,
          pd_redirect_target = fr_redirected_url result,
          pd_error = fr_error result\<rparr>)"

text \<open>\<open>queue.put(entry)\<close> followed by \<open>enqueued.add(url)\<close>.\<close>

definition put_entry :: "entry \<Rightarrow> CrawlManager \<Rightarrow> CrawlManager" where
  "put_entry e s = s\<lparr>queue := queue s @ [e], enqueued := insert (fst e) (enqueued s)\<rparr>"

text \<open>The loop of \<open>_prepare_seed_urls\<close> over the URLs of the sitemap. An exception of
  \<open>is_same_domain\<close> leaves the loop and \<open>crawl()\<close>.\<close>

fun seed_urls :: "env \<Rightarrow> string list \<Rightarrow> CrawlManager \<Rightarrow> py_error + (event list \<times> CrawlManager)" where
  "seed_urls ev [] s = Inr ([], s)"
| "seed_urls ev (url # urls) s =
     (case is_same_domain (urllib ev) url (base_url s) of
        Inl e \<Rightarrow> Inl e
      | Inr same \<Rightarrow>
          (if same \<and> url \<notin> enqueued s
           then (case seed_urls ev urls (put_entry (url, 0, None) s) of
                   Inl e \<Rightarrow> Inl e
                 | Inr (evs, s') \<Rightarrow> Inr (Put (url, 0, None) # evs, s'))
           else seed_urls ev urls s))"

text \<open>\<open>_prepare_seed_urls\<close>, given the network's answers for \<open>/robots.txt\<close> and
  \<open>/sitemap.xml\<close>.\<close>

definition prepare_seed_urls ::
  "env \<Rightarrow> CrawlManager \<Rightarrow> http_outcome \<Rightarrow> http_outcome \<Rightarrow> py_error + (event list \<times> CrawlManager)" where
  "prepare_seed_urls ev s robots_outcome sitemap_outcome =
     (let s1 = put_entry (base_url s, 0, None) s
      in case yarl_with_path ev (base_url s1) ''/robots.txt'' of
           Inl e \<Rightarrow> Inl e
         | Inr robots_url \<Rightarrow>
      (case fetch robots_url robots_outcome of
           Inl e \<Rightarrow> Inl e
         | Inr robots_result \<Rightarrow>
      (let text = (if truthy_str (fr_content robots_result)
                   then Some (decode_utf8_ignore ev (the (fr_content robots_result)))
                   else None);
           s2 = s1\<lparr>robots := Some (build_robots ev (user_agent s1) text)\<rparr>
       in case yarl_with_path ev (base_url s2) ''/sitemap.xml'' of
            Inl e \<Rightarrow> Inl e
          | Inr sitemap_url \<Rightarrow>
      (case fetch sitemap_url sitemap_outcome of
            Inl e \<Rightarrow> Inl e
          | Inr sitemap_result \<Rightarrow>
              (if truthy_int (fr_status sitemap_result) \<and> the (fr_status sitemap_result) < 400 \<and>
                  truthy_str (fr_content sitemap_result)
               then (let urls =
                           parse_sitemap_or_empty ev (base_url s2)
                             (decode_utf8_ignore ev (the (fr_content sitemap_result)))
                     in case seed_urls ev urls s2 of
                          Inl e \<Rightarrow> Inl e
                        | Inr (evs, s3) \<Rightarrow> Inr (Put (base_url s, 0, None) # evs, s3))
               else Inr ([Put (base_url s, 0, None)], s2))))))"

text \<open>\<open>_process_url\<close> up to the fetch. The flag tells whether the fetch is reached.\<close>

definition process_url_before_fetch ::
  "env \<Rightarrow> CrawlManager \<Rightarrow> entry \<Rightarrow> bool \<times> event list \<times> CrawlManager" where
  "process_url_before_fetch ev s e =
     (case e of (url, depth, source) \<Rightarrow>
        if url \<in> visited s then (False, [], s)
        else
          (let s1 = s\<lparr>visited := insert url (visited s)\<rparr>
           in if robots s1 \<noteq> None \<and> \<not> allows ev (the (robots s1)) url
              then (False, [Visit url], s1)
              else if depth > max_depth s1 then (False, [Visit url], s1)
              else (True, [Visit url],
                    if truthy_str source
                    then s1\<lparr>edges := edges s1 @ [(the source, url)]\<rparr>
                    else s1)))"

text \<open>The loop of \<open>_process_url\<close> over \<open>parsed.internal_links\<close>. An exception of
  \<open>is_allowed_scheme\<close> or \<open>is_same_domain\<close> leaves the loop and \<open>_process_url\<close>.\<close>

fun harvest ::
  "env \<Rightarrow> string \<Rightarrow> int \<Rightarrow> string list \<Rightarrow> CrawlManager \<Rightarrow> py_error option \<times> event list \<times> CrawlManager" where
  "harvest ev url depth [] s = (None, [], s)"
| "harvest ev url depth (link # links) s =
     (case is_allowed_scheme (urllib ev) link of
        Inl e \<Rightarrow> (Some e, [], s)
      | Inr allowed \<Rightarrow>
          if \<not> allowed then harvest ev url depth links s
          else if link \<notin> visited s \<and> link \<notin> enqueued s
          then (case is_same_domain (urllib ev) link (base_url s) of
                  Inl e \<Rightarrow> (Some e, [], s)
                | Inr same \<Rightarrow>
                    if same
                    then (case harvest ev url depth links (put_entry (link, depth + 1, Some url) s) of
                            (r, evs, s') \<Rightarrow> (r, Put (link, depth + 1, Some url) # evs, s'))
                    else harvest ev url depth links s)
          else harvest ev url depth links s)"

text \<open>\<open>_process_url\<close> from the answer of the fetch to the append to
  \<open>broken_links\<close>: the hash, the parse, the duplicate map and the page.\<close>

definition emit_page ::
  "env \<Rightarrow> CrawlManager \<Rightarrow> string \<Rightarrow> FetchResult \<Rightarrow> ParsedPage option \<times> PageData \<times> CrawlManager" where
  "emit_page ev s url result =
     (let has_content = truthy_str (fr_content result);
          content_hash = (if has_content
                          then Some (md5_hexdigest ev (the (fr_content result)))
                          else None);
          parsed = (if has_content then maybe_parse_html ev s url result else None);
          s1 = (if has_content \<and> truthy_str content_hash
                then s\<lparr>duplicate_map :=
                         AList.update (the content_hash)
                           (dict_get (duplicate_map s) (the content_hash) [] @ [url])
                           (duplicate_map s)\<rparr>
                else s);
          page = build_page result parsed content_hash;
          s2 = s1\<lparr>pages := pages s1 @ [page]\<rparr>;
          s3 = (if truthy_int (pd_status page) \<and> the (pd_status page) \<ge> 400
                then s2\<lparr>broken_links := broken_links s2 @ [page]\<rparr>
                else s2)
      in (parsed, page, s3))"

text \<open>\<open>_process_url\<close> from the answer of the fetch on. The first component is the
  exception that leaves \<open>_process_url\<close>, if any.\<close>

definition process_url_after_fetch ::
  "env \<Rightarrow> CrawlManager \<Rightarrow> entry \<Rightarrow> http_outcome \<Rightarrow> py_error option \<times> event list \<times> CrawlManager" where
  "process_url_after_fetch ev s e outcome =
     (case e of (url, depth, source) \<Rightarrow>
        (case fetch url outcome of
           Inl err \<Rightarrow> (Some err, [], s)
         | Inr result \<Rightarrow>
             (case emit_page ev s url result of
                (parsed, page, s3) \<Rightarrow>
                  (case (case progress_callback ev of None \<Rightarrow> None | Some cb \<Rightarrow> cb page) of
                     Some err \<Rightarrow> (Some err, [Emit e page], s3)
                   | None \<Rightarrow>
                       (case parsed of
                          None \<Rightarrow> (None, [Emit e page], s3)
                        | Some p \<Rightarrow>
                            (case harvest ev url depth (pp_internal_links p) s3 of
                               (r, evs, s4) \<Rightarrow> (r, Emit e page # evs, s4)))))))"

text \<open>
  One move of the event loop: worker \<open>w\<close> takes the head of the queue and runs
  \<open>_process_url\<close> up to the fetch, or the fetch of worker \<open>w\<close> is answered and the
  worker runs \<open>_process_url\<close> to its end. A move that is not possible changes nothing.
\<close>

datatype action = Take nat | Done nat http_outcome

definition step :: "env \<Rightarrow> action \<Rightarrow> CrawlManager \<Rightarrow> event list \<times> CrawlManager" where
  "step ev a s =
     (case a of
        Take w \<Rightarrow>
          (if w < length (workers s) \<and> workers s ! w = Waiting \<and> queue s \<noteq> []
           then (case process_url_before_fetch ev (s\<lparr>queue := tl (queue s)\<rparr>) (hd (queue s)) of
                   (cont, evs, s1) \<Rightarrow>
                     (Get (hd (queue s)) # evs,
                      if cont then s1\<lparr>workers := (workers s1)[w := Fetching (hd (queue s))]\<rparr>
                      else s1))
           else ([], s))
      | Done w outcome \<Rightarrow>
          (if w < length (workers s)
           then (case workers s ! w of
                   Fetching e \<Rightarrow>
                     (case process_url_after_fetch ev s e outcome of
                        (r, evs, s1) \<Rightarrow>
                          (evs, s1\<lparr>workers := (workers s1)
                                     [w := (case r of None \<Rightarrow> Waiting | Some err \<Rightarrow> Failed err)]\<rparr>))
                 | _ \<Rightarrow> ([], s))
           else ([], s)))"

fun run :: "env \<Rightarrow> action list \<Rightarrow> CrawlManager \<Rightarrow> event list \<times> CrawlManager" where
  "run ev [] s = ([], s)"
| "run ev (a # as) s =
     (case step ev a s of
        (evs1, s1) \<Rightarrow> (case run ev as s1 of (evs2, s2) \<Rightarrow> (evs1 @ evs2, s2)))"

text \<open>\<open>queue.join()\<close> returns when every entry that was put has been taken and marked
  done: the queue is empty and no worker is inside \<open>_process_url\<close>.\<close>

definition drained :: "CrawlManager \<Rightarrow> bool" where
  "drained s = (queue s = [] \<and> (\<forall>w \<in> set (workers s). case w of Fetching e \<Rightarrow> False | _ \<Rightarrow> True))"

definition crawl_result :: "CrawlManager \<Rightarrow> CrawlResult" where
  "crawl_result s =
     \<lparr>cr_pages = pages s,
      cr_edges = edges s,
      cr_duplicate_map = filter (\<lambda>(k, v). length v > 1) (duplicate_map s),
      cr_broken_links = broken_links s\<rparr>"

text \<open>
  \<open>crawl()\<close> up to \<open>queue.join()\<close>, for the network's answers to the two seed requests
  and a schedule of the event loop: the events in order and the state reached.
\<close>

definition crawl_trace ::
  "env \<Rightarrow> CrawlManager \<Rightarrow> http_outcome \<Rightarrow> http_outcome \<Rightarrow> action list \<Rightarrow>
   py_error + (event list \<times> CrawlManager)" where
  "crawl_trace ev s robots_outcome sitemap_outcome schedule =
     (case prepare_seed_urls ev s robots_outcome sitemap_outcome of
        Inl e \<Rightarrow> Inl e
      | Inr (evs0, s1) \<Rightarrow>
          (case run ev schedule (s1\<lparr>workers := replicate (nat (threads s1)) Waiting\<rparr>) of
             (evs, s2) \<Rightarrow> Inr (evs0 @ evs, s2)))"

text \<open>\<open>crawl()\<close>: \<open>None\<close> while \<open>queue.join()\<close> has not returned under the schedule.\<close>

definition crawl ::
  "env \<Rightarrow> CrawlManager \<Rightarrow> http_outcome \<Rightarrow> http_outcome \<Rightarrow> action list \<Rightarrow>
   (py_error + CrawlResult) option" where
  "crawl ev s robots_outcome sitemap_outcome schedule =
     (case crawl_trace ev s robots_outcome sitemap_outcome schedule of
        Inl e \<Rightarrow> Some (Inl e)
      | Inr (evs, s') \<Rightarrow> (if drained s' then Some (Inr (crawl_result s')) else None))"

section \<open>Traces and invariants of a crawl\<close>

text \<open>The entries put on the frontier, the entries taken from it and the URLs that
  passed the visited check, in the order of a trace.\<close>

fun puts :: "event list \<Rightarrow> entry list" where
  "puts [] = []"
| "puts (Put e # tr) = e # puts tr"
| "puts (Get e # tr) = puts tr"
| "puts (Visit u # tr) = puts tr"
| "puts (Emit e p # tr) = puts tr"

fun gets :: "event list \<Rightarrow> entry list" where
  "gets [] = []"
| "gets (Put e # tr) = gets tr"
| "gets (Get e # tr) = e # gets tr"
| "gets (Visit u # tr) = gets tr"
| "gets (Emit e p # tr) = gets tr"

fun visits :: "event list \<Rightarrow> string list" where
  "visits [] = []"
| "visits (Put e # tr) = visits tr"
| "visits (Get e # tr) = visits tr"
| "visits (Visit u # tr) = u # visits tr"
| "visits (Emit e p # tr) = visits tr"

fun emits :: "event list \<Rightarrow> (entry \<times> PageData) list" where
  "emits [] = []"
| "emits (Put e # tr) = emits tr"
| "emits (Get e # tr) = emits tr"
| "emits (Visit u # tr) = emits tr"
| "emits (Emit e p # tr) = (e, p) # emits tr"

text \<open>The frontier holds no URL twice, holds only URLs recorded in \<open>enqueued\<close> and
  none in \<open>visited\<close>, and every visited URL was enqueued.\<close>

definition frontier_inv :: "CrawlManager \<Rightarrow> bool" where
  "frontier_inv s =
     (distinct (map fst (queue s)) \<and> fst ` set (queue s) \<subseteq> enqueued s \<and>
      visited s \<inter> fst ` set (queue s) = {} \<and> visited s \<subseteq> enqueued s)"

text \<open>Every entry whose fetch is under way passed the depth check.\<close>

definition fetching_inv :: "CrawlManager \<Rightarrow> bool" where
  "fetching_inv s = (\<forall>e. Fetching e \<in> set (workers s) \<longrightarrow> fst (snd e) \<le> max_depth s)"

text \<open>Every URL listed under a hash has a page with that URL and that hash.\<close>

definition dup_inv :: "CrawlManager \<Rightarrow> bool" where
  "dup_inv s =
     (\<forall>(h, urls) \<in> set (duplicate_map s).
        \<forall>u \<in> set urls. \<exists>p \<in> set (pages s). pd_url p = u \<and> pd_content_hash p = Some h)"

text \<open>Every entry put in a trace is a seed (depth 0, no source) or a link of a page
  emitted in the trace, one level below the entry of that page and with its URL as
  source; and every page was emitted for an entry within \<open>md\<close>.\<close>

definition depth_ok :: "int \<Rightarrow> event list \<Rightarrow> bool" where
  "depth_ok md tr =
     ((\<forall>(l, d', src) \<in> set (puts tr).
         (d' = 0 \<and> src = None) \<or>
         (\<exists>((u, d, s0), page) \<in> set (emits tr).
            src = Some u \<and> d' = d + 1 \<and> l \<in> set (pd_internal_links page))) \<and>
      (\<forall>((u, d, s0), page) \<in> set (emits tr). d \<le> md))"

section \<open>An example site\<close>

text \<open>
  A site on \<open>example.com\<close>: the front page links to \<open>/a\<close> and \<open>/c\<close>, which have the
  same body and link to \<open>/b\<close>. The libraries are replaced by stand-ins: links are
  absolute already, the hash of a body is the body, no robots library is installed,
  the sitemap text \<open>ftp\<close> stands for a urlset with one file URL on the same host, the
  text \<open>ftp list\<close> for the same urlset with its entry in a list, and any other text
  is not well-formed.
\<close>

definition example_page :: "string \<Rightarrow> string list \<Rightarrow> ParsedPage" where
  "example_page url links =
     \<lparr>pp_url = url, pp_title = None, pp_meta_description = None, pp_canonical = None,
      pp_headings = [], pp_internal_links = links, pp_external_links = [],
      pp_images = []\<rparr>"

definition example_env :: env where
  "example_env =
     \<lparr>urllib = cpython_3_11_10 (\<lambda>h. False),
      Robots_parse = None,
      xmltodict_parse =
        (\<lambda>text. if text = ''ftp''
                 then Inr [(''urlset'', XDict [(''url'', XDict [(''loc'', XStr ''ftp://example.com/x'')])])]
                 else if text = ''ftp list''
                 then Inr [(''urlset'', XDict [(''url'', XList [XDict [(''loc'', XStr ''ftp://example.com/x'')]])])]
                 else Inl ExpatError),
      urljoin = (\<lambda>base link. Inr link),
      yarl_with_fragment_empty = (\<lambda>u. Inr u),
      yarl_with_path = (\<lambda>u p. Inr (''http://example.com'' @ p)),
      decode_utf8_ignore = (\<lambda>b. b),
      md5_hexdigest = (\<lambda>b. b),
      parse_html =
        (\<lambda>url base html.
           if html = ''front'' then Inr (example_page url [''http://example.com/a'', ''http://example.com/c''])
           else if html = ''same'' then Inr (example_page url [''http://example.com/b''])
           else Inr (example_page url [])),
      progress_callback = None\<rparr>"

definition example_manager :: CrawlManager where
  "example_manager =
     \<lparr>base_url = ''http://example.com/'', max_depth = 1, threads = 1, user_agent = ''sfrog'',
      queue = [], visited = {}, enqueued = {}, edges = [], pages = [],
      duplicate_map = [], broken_links = [], robots = None, workers = []\<rparr>"

definition html_response :: "string \<Rightarrow> string \<Rightarrow> http_outcome" where
  "html_response url body = Responded 200 [(''Content-Type'', ''text/html'')] body url 0"

definition example_schedule :: "action list" where
  "example_schedule =
     [Take 0, Done 0 (html_response ''http://example.com/'' ''front''),
      Take 0, Done 0 (html_response ''http://example.com/a'' ''same''),
      Take 0, Done 0 (html_response ''http://example.com/c'' ''same''),
      Take 0]"

text \<open>The same site with a robots library: its rules, whatever the text of
  \<open>/robots.txt\<close>, deny \<open>/a\<close>.\<close>

definition example_robots_env :: env where
  "example_robots_env =
     example_env\<lparr>Robots_parse :=
       Some (\<lambda>text. Inr (\<lambda>url agent. Inr (url \<noteq> ''http://example.com/a'')))\<rparr>"

definition robots_response :: http_outcome where
  "robots_response = Responded 200 [] ''Disallow: /a'' ''http://example.com/robots.txt'' 0"

definition example_robots_schedule :: "action list" where
  "example_robots_schedule =
     [Take 0, Done 0 (html_response ''http://example.com/'' ''front''),
      Take 0,
      Take 0, Done 0 (html_response ''http://example.com/c'' ''same''),
      Take 0]"

section \<open>Relations between the states of a crawl\<close>

text \<open>The fields that no step of the crawl changes.\<close>

definition same_config :: "CrawlManager \<Rightarrow> CrawlManager \<Rightarrow> bool" where
  "same_config s s' =
     (robots s' = robots s \<and> max_depth s' = max_depth s \<and> base_url s' = base_url s \<and>
      threads s' = threads s \<and> user_agent s' = user_agent s)"

text \<open>The URLs put in a trace are distinct, were not enqueued before, and are what
  \<open>enqueued\<close> gained.\<close>

definition fresh_puts :: "CrawlManager \<Rightarrow> event list \<Rightarrow> CrawlManager \<Rightarrow> bool" where
  "fresh_puts s tr s' =
     (enqueued s' = enqueued s \<union> fst ` set (puts tr) \<and> distinct (map fst (puts tr)) \<and>
      fst ` set (puts tr) \<inter> enqueued s = {})"

text \<open>The URLs that passed the visited check in a trace are distinct, were not
  visited before, and are what \<open>visited\<close> gained.\<close>

definition fresh_visits :: "CrawlManager \<Rightarrow> event list \<Rightarrow> CrawlManager \<Rightarrow> bool" where
  "fresh_visits s tr s' =
     (visited s' = visited s \<union> set (visits tr) \<and> distinct (visits tr) \<and>
      set (visits tr) \<inter> visited s = {})"

text \<open>\<open>edges\<close> only grows, and holds (source, url) for every entry taken in the trace
  with a true source, a URL that robots allows and a depth within the limit.\<close>

definition edges_recorded :: "env \<Rightarrow> CrawlManager \<Rightarrow> event list \<Rightarrow> CrawlManager \<Rightarrow> bool" where
  "edges_recorded ev s tr s' =
     ((\<exists>es. edges s' = edges s @ es) \<and>
      (\<forall>(url, d, source) \<in> set (gets tr).
         truthy_str source \<and> (\<forall>r. robots s = Some r \<longrightarrow> allows ev r url) \<and> d \<le> max_depth s
         \<longrightarrow> (the source, url) \<in> set (edges s')))"

definition crawl_inv :: "CrawlManager \<Rightarrow> bool" where
  "crawl_inv s = (frontier_inv s \<and> fetching_inv s \<and> dup_inv s)"

text \<open>What one step, and so any run, keeps and establishes.\<close>

definition step_ok :: "env \<Rightarrow> CrawlManager \<Rightarrow> event list \<Rightarrow> CrawlManager \<Rightarrow> bool" where
  "step_ok ev s tr s' =
     (crawl_inv s' \<and> same_config s s' \<and> fresh_puts s tr s' \<and> fresh_visits s tr s' \<and>
      depth_ok (max_depth s) tr \<and> edges_recorded ev s tr s' \<and>
      (\<exists>ps. pages s' = pages s @ ps))"

text \<open>The state that \<open>__init__\<close> leaves: nothing queued, visited or recorded.\<close>

definition initial :: "CrawlManager \<Rightarrow> bool" where
  "initial s =
     (queue s = [] \<and> visited s = {} \<and> enqueued s = {} \<and> edges s = [] \<and> pages s = [] \<and>
      duplicate_map s = [] \<and> workers s = [])"

text \<open>Whether robots allows a URL in a state: every URL while there are no rules.\<close>

definition robots_allows :: "env \<Rightarrow> CrawlManager \<Rightarrow> string \<Rightarrow> bool" where
  "robots_allows ev s url = (case robots s of None \<Rightarrow> True | Some r \<Rightarrow> allows ev r url)"

text \<open>What \<open>_process_url\<close> appends to \<open>edges\<close> for an entry that is not visited yet:
  the pair (source, url) when the source is true, robots allows the URL and the depth
  is within \<open>max_depth\<close>, and nothing otherwise.\<close>

definition edge_of :: "env \<Rightarrow> CrawlManager \<Rightarrow> entry \<Rightarrow> (string \<times> string) list" where
  "edge_of ev s e =
     (case e of (url, depth, source) \<Rightarrow>
        if truthy_str source \<and> robots_allows ev s url \<and> depth \<le> max_depth s
        then [(the source, url)] else [])"

section \<open>The links put for a page\<close>

text \<open>The entries put at the head of a trace, before anything else happens.\<close>

fun leading_puts :: "event list \<Rightarrow> entry list" where
  "leading_puts (Put e # tr) = e # leading_puts tr"
| "leading_puts tr = []"

text \<open>
  For every page of a trace, in order: the URLs put before the page, the entry the page
  was emitted for, the page, and the entries put right after it. These are the entries
  that \<open>_process_url\<close> puts for the links of the page, since it runs from the append
  to \<open>pages\<close> to its end without interruption.
\<close>

fun harvested :: "string set \<Rightarrow> event list \<Rightarrow> (string set \<times> entry \<times> PageData \<times> entry list) list" where
  "harvested enq [] = []"
| "harvested enq (Put e # tr) = harvested (insert (fst e) enq) tr"
| "harvested enq (Get e # tr) = harvested enq tr"
| "harvested enq (Visit u # tr) = harvested enq tr"
| "harvested enq (Emit e p # tr) = (enq, e, p, leading_puts tr) # harvested enq tr"

text \<open>A link of the allowed schemes on the host of the base URL.\<close>

definition harvestable :: "env \<Rightarrow> string \<Rightarrow> string \<Rightarrow> bool" where
  "harvestable ev base l =
     (is_allowed_scheme (urllib ev) l = Inr True \<and> is_same_domain (urllib ev) l base = Inr True)"

text \<open>The progress callback returns on a page; \<open>is_allowed_scheme\<close> and
  \<open>is_same_domain\<close> return on every link of a list.\<close>

definition callback_returns :: "env \<Rightarrow> PageData \<Rightarrow> bool" where
  "callback_returns ev page =
     (case progress_callback ev of None \<Rightarrow> True | Some cb \<Rightarrow> cb page = None)"

definition checks_return :: "env \<Rightarrow> string \<Rightarrow> string list \<Rightarrow> bool" where
  "checks_return ev base links =
     (\<forall>l \<in> set links. \<not> isl (is_allowed_scheme (urllib ev) l) \<and>
                        \<not> isl (is_same_domain (urllib ev) l base))"

text \<open>
  What is put for a page emitted for the entry (u, d, _): every entry put has depth
  d + 1 and source u; the URLs put are distinct links of the page, on the host of the
  base URL, of an allowed scheme and not enqueued before; and they are all such links
  when no exception ends the loop over the links.
\<close>

definition links_enqueued :: "env \<Rightarrow> string \<Rightarrow> string set \<times> entry \<times> PageData \<times> entry list \<Rightarrow> bool" where
  "links_enqueued ev base h =
     (case h of (enq, (u, d, s0), page, ps) \<Rightarrow>
        (\<forall>(l, d', src) \<in> set ps. d' = d + 1 \<and> src = Some u) \<and>
        distinct (map fst ps) \<and>
        set (map fst ps) \<subseteq> set (filter (\<lambda>l. harvestable ev base l \<and> l \<notin> enq) (pd_internal_links page)) \<and>
        (callback_returns ev page \<and> checks_return ev base (pd_internal_links page) \<longrightarrow>
           set (filter (\<lambda>l. harvestable ev base l \<and> l \<notin> enq) (pd_internal_links page))
             \<subseteq> set (map fst ps)))"

text \<open>The entries put right after the pages of a trace.\<close>

definition put_after_pages :: "string set \<Rightarrow> event list \<Rightarrow> entry list" where
  "put_after_pages enq tr = concat (map (\<lambda>(enq, e, page, ps). ps) (harvested enq tr))"

text \<open>What one step establishes for the pages and the entries put after them.\<close>

definition step_links :: "env \<Rightarrow> CrawlManager \<Rightarrow> event list \<Rightarrow> CrawlManager \<Rightarrow> bool" where
  "step_links ev s evs s' =
     (pages s' = pages s @ map snd (emits evs) \<and>
      (\<forall>tr. leading_puts tr = [] \<longrightarrow>
         leading_puts (evs @ tr) = [] \<and>
         (\<exists>hs. harvested (enqueued s) (evs @ tr) = hs @ harvested (enqueued s') tr \<and>
               (\<forall>h \<in> set hs. links_enqueued ev (base_url s) h) \<and>
               puts evs = concat (map (\<lambda>(enq, e, page, ps). ps) hs))))"

section \<open>Notions for the URL properties\<close>

text \<open>A character that is neither a capital nor the lower case of one: \<open>str.lower\<close>
  neither changes it nor produces it.\<close>

definition caseless :: "char \<Rightarrow> bool" where
  "caseless x =
     (let n = (of_char x :: nat)
      in n < 65 \<or> (90 < n \<and> n < 97) \<or> (122 < n \<and> n < 192) \<or> n = 215 \<or> n = 223 \<or>
         n = 247 \<or> n = 255)"

text \<open>A string without tab, carriage return and line feed, the characters that
  \<open>urlsplit\<close> removes.\<close>

definition safe :: "string \<Rightarrow> bool" where
  "safe s = (\<forall>c \<in> set s. \<not> unsafe_url_byte c)"

text \<open>What the properties below assume of \<open>ipaddress.ip_address\<close>: an address that it
  accepts as IPv6 is accepted in lower case too, and does not begin with a capital V.\<close>

definition ipv6_lower_closed :: "(string \<Rightarrow> bool) \<Rightarrow> bool" where
  "ipv6_lower_closed f = (\<forall>h. f h \<longrightarrow> f (py_lower h) \<and> take 1 h \<noteq> ''V'')"

text \<open>What the properties below assume of the scheme lists: \<open>http\<close> and \<open>https\<close> are
  in \<open>uses_netloc\<close> and in \<open>uses_params\<close>.\<close>

definition knows_http :: "urllib \<Rightarrow> bool" where
  "knows_http lib =
     (''http'' \<in> set (uses_netloc lib) \<and> ''https'' \<in> set (uses_netloc lib) \<and>
      ''http'' \<in> set (uses_params lib) \<and> ''https'' \<in> set (uses_params lib))"

text \<open>Whether \<open>urlunsplit\<close> writes \<open>//\<close> and the netloc for a scheme of \<open>uses_netloc\<close>:
  always in a revision with \<open>authority_before_slashes\<close>, and otherwise unless the
  netloc is empty and the path begins with \<open>//\<close>.\<close>

definition writes_authority :: "urllib \<Rightarrow> string \<Rightarrow> string \<Rightarrow> bool" where
  "writes_authority lib nl pa = (authority_before_slashes lib \<or> nl \<noteq> [] \<or> take 2 pa \<noteq> ''//'')"

text \<open>The scheme that \<open>canonicalize\<close> passes to \<open>urlunparse\<close>.\<close>

definition canonical_scheme :: "string \<Rightarrow> string" where
  "canonical_scheme sch =
     (if CANONICAL_SCHEME_RE_match (py_lower sch) then py_lower sch else ''http'')"

text \<open>A path as it stands after an authority: \<open>/\<close> for the empty path, and a
  \<open>/\<close> in front of a path that does not begin with one.\<close>

definition rooted :: "string \<Rightarrow> string" where
  "rooted pa = (if pa = [] then ''/'' else if take 1 pa = ''/'' then pa else CHR ''/'' # pa)"

text \<open>The text after the last \<open>/\<close> of a path (the whole path when it has none).\<close>

definition last_segment :: "string \<Rightarrow> string" where
  "last_segment s = rev (takeWhile (\<lambda>c. c \<noteq> CHR ''/'') (rev s))"

section \<open>Notions for the sitemap properties\<close>



section \<open>Properties\<close>

subsection \<open>URL tools\<close>

lemma of_char_lower:
  "(of_char (py_lower_char c) :: nat) =
     (let n = of_char c
      in if (65 \<le> n \<and> n \<le> 90) \<or> (192 \<le> n \<and> n \<le> 222 \<and> n \<noteq> 215) then n + 32 else n)"
  by (auto simp: py_lower_char_def Let_def)

lemma char_eq_code: "(c = d) = ((of_char c :: nat) = of_char d)"
  by auto

lemma lower_neutral: "caseless x \<Longrightarrow> (py_lower_char c = x) = (c = x)"
  unfolding char_eq_code[of _ x] of_char_lower Let_def caseless_def by auto

lemma lower_idem: "py_lower_char (py_lower_char c) = py_lower_char c"
  unfolding char_eq_code of_char_lower Let_def by auto

lemma py_lower_idem: "py_lower (py_lower s) = py_lower s"
  by (simp add: py_lower_def lower_idem)

lemma caseless_specials:
  "caseless (CHR ''/'')" "caseless (CHR ''?'')" "caseless (CHR ''#'')" "caseless (CHR ''['')"
  "caseless (CHR '']'')" "caseless (CHR '';'')" "caseless (CHR '':'')" "caseless (CHR ''.'')"
  "caseless (CHR 0x0A)" "caseless (CHR 0x0D)" "caseless (CHR 0x09)"
  by (simp_all add: caseless_def)

lemmas lower_specials = caseless_specials[THEN lower_neutral]

lemma unsafe_lower: "unsafe_url_byte (py_lower_char c) = unsafe_url_byte c"
  by (simp add: unsafe_url_byte_def lower_specials)

lemma hex_digit_code:
  "hex_digit c = (let n = (of_char c :: nat) in (48 \<le> n \<and> n \<le> 57) \<or> (65 \<le> n \<and> n \<le> 70) \<or> (97 \<le> n \<and> n \<le> 102))"
  unfolding hex_digit_def Let_def
  by (simp add: char_eq_code[of c]) arith

lemma hex_digit_lower: "hex_digit (py_lower_char c) = hex_digit c"
  unfolding hex_digit_code of_char_lower Let_def by auto

lemma lower_v: "(py_lower_char c = CHR ''v'') = (c = CHR ''v'' \<or> c = CHR ''V'')"
  unfolding char_eq_code of_char_lower Let_def by auto

lemma in_set_lower:
  assumes "caseless x"
  shows "(x \<in> set (py_lower s)) = (x \<in> set s)"
proof -
  have "\<And>c. (x = py_lower_char c) = (c = x)"
    using lower_neutral[OF assms] by metis
  then show ?thesis by (auto simp: py_lower_def image_iff)
qed

lemma takeWhile_lower:
  "caseless x \<Longrightarrow> takeWhile (\<lambda>c. c \<noteq> x) (py_lower s) = py_lower (takeWhile (\<lambda>c. c \<noteq> x) s)"
  by (induction s) (auto simp: py_lower_def lower_neutral)

lemma dropWhile_lower:
  "caseless x \<Longrightarrow> dropWhile (\<lambda>c. c \<noteq> x) (py_lower s) = py_lower (dropWhile (\<lambda>c. c \<noteq> x) s)"
  by (induction s) (auto simp: py_lower_def lower_neutral)

lemma py_lower_simps [simp]:
  "py_lower [] = []" "py_lower (c # s) = py_lower_char c # py_lower s"
  "py_lower (a @ b) = py_lower a @ py_lower b" "length (py_lower s) = length s"
  "(py_lower s = []) = (s = [])"
  by (simp_all add: py_lower_def)

lemma py_lower_drop: "py_lower (drop n s) = drop n (py_lower s)"
  by (simp add: py_lower_def drop_map)

lemma bracketed_host_lower: "bracketed_host (py_lower nl) = py_lower (bracketed_host nl)"
  by (simp add: bracketed_host_def takeWhile_lower dropWhile_lower caseless_specials
      py_lower_drop[symmetric])

lemma tw_stop: "x \<notin> set a \<Longrightarrow> takeWhile (\<lambda>c. c \<noteq> x) (a @ x # r) = a"
  by (induction a) auto

lemma tw_past:
  "x \<notin> set a \<Longrightarrow> y \<noteq> x \<Longrightarrow>
   takeWhile (\<lambda>c. c \<noteq> x) (a @ y # r) = a @ y # takeWhile (\<lambda>c. c \<noteq> x) r"
  by (induction a) auto

lemma dw_stop: "x \<notin> set a \<Longrightarrow> dropWhile (\<lambda>c. c \<noteq> x) (a @ x # r) = x # r"
  by (induction a) auto

lemma splitnetloc_slash:
  assumes "CHR ''/'' \<notin> set n" "CHR ''?'' \<notin> set n" "CHR ''#'' \<notin> set n"
  shows "splitnetloc (''//'' @ n @ CHR ''/'' # r) = (n, CHR ''/'' # r)"
proof -
  let ?u = "''//'' @ n @ CHR ''/'' # r"
  have d: "drop 2 ?u = n @ CHR ''/'' # r" by simp
  have w1: "py_find ?u (CHR ''/'') 2 = int (2 + length n)"
    unfolding py_find_def d Let_def using assms(1) by (simp add: tw_stop)
  have w2: "py_find ?u (CHR ''?'') 2 = - 1 \<or> py_find ?u (CHR ''?'') 2 > int (2 + length n)"
    unfolding py_find_def d Let_def using assms(2) by (simp add: tw_past)
  have w3: "py_find ?u (CHR ''#'') 2 = - 1 \<or> py_find ?u (CHR ''#'') 2 > int (2 + length n)"
    unfolding py_find_def d Let_def using assms(3) by (simp add: tw_past)
  define a2 where "a2 = py_find ?u (CHR ''?'') 2"
  define a3 where "a3 = py_find ?u (CHR ''#'') 2"
  have delim: "(let delim0 = int (length ?u);
          w1 = int (2 + length n);
          delim1 = (if w1 \<ge> 0 then min delim0 w1 else delim0);
          delim2 = (if a2 \<ge> 0 then min delim1 a2 else delim1)
      in (if a3 \<ge> 0 then min delim2 a3 else delim2)) = int (2 + length n)"
    using w2 w3 unfolding a2_def[symmetric] a3_def[symmetric] Let_def by auto
  have "splitnetloc ?u = (drop 2 (py_upto ?u (int (2 + length n))), py_from ?u (int (2 + length n)))"
    unfolding splitnetloc_def w1 a2_def[symmetric] a3_def[symmetric]
    using delim by (simp add: Let_def)
  also have "\<dots> = (n, CHR ''/'' # r)"
  proof -
    have k: "nat (int (2 + length n)) = Suc (Suc (length n))" by simp
    have "\<not> int (2 + length n) < 0" by simp
    then show ?thesis
      unfolding py_upto_def py_from_def k by simp
  qed
  finally show ?thesis .
qed

lemma http_scheme_facts:
  assumes "s = ''http'' \<or> s = ''https''"
  shows "dropWhile c0_control_or_space (s @ r) = s @ r"
    and "filter (\<lambda>c. \<not> unsafe_url_byte c) s = s"
    and "py_find (s @ CHR '':'' # r) (CHR '':'') 0 = int (length s)"
    and "0 < length s" and "ascii_alpha (hd (s @ r))"
    and "\<forall>c \<in> set s. c \<in> set scheme_chars"
    and "py_lower s = s" and "s \<noteq> []"
    and "CANONICAL_SCHEME_RE_match s"
proof -
  show "dropWhile c0_control_or_space (s @ r) = s @ r"
    using assms by (auto simp: c0_control_or_space_def)
  show "filter (\<lambda>c. \<not> unsafe_url_byte c) s = s"
    using assms by (auto simp: unsafe_url_byte_def)
  show "py_find (s @ CHR '':'' # r) (CHR '':'') 0 = int (length s)"
    using assms by (auto simp: py_find_def)
  show "0 < length s" "s \<noteq> []" using assms by auto
  show "ascii_alpha (hd (s @ r))" using assms by (auto simp: ascii_alpha_def)
  show "\<forall>c \<in> set s. c \<in> set scheme_chars"
    using assms by (auto simp: scheme_chars_def)
  show "py_lower s = s" using assms by (auto simp: py_lower_char_def)
  show "CANONICAL_SCHEME_RE_match s" using assms by (auto simp: CANONICAL_SCHEME_RE_match_def)
qed

lemma knows_http_schemes:
  assumes "knows_http lib" "s = ''http'' \<or> s = ''https''"
  shows "s \<in> set (uses_netloc lib)" "s \<in> set (uses_params lib)"
  using assms by (auto simp: knows_http_def)

lemma safe_filter: "safe s \<Longrightarrow> filter (\<lambda>c. \<not> unsafe_url_byte c) s = s"
  by (simp add: safe_def)

lemma safe_simps [simp]:
  "safe []" "safe (x # a) = (\<not> unsafe_url_byte x \<and> safe a)" "safe (a @ b) = (safe a \<and> safe b)"
  by (auto simp: safe_def)

lemma safe_http: "s = ''http'' \<or> s = ''https'' \<Longrightarrow> safe s"
  by (auto simp: unsafe_url_byte_def)

lemma split_scheme_canonical:
  assumes "s = ''http'' \<or> s = ''https''"
  shows "split_scheme (s @ CHR '':'' # rest) = (s, rest)"
proof -
  note h = http_scheme_facts[OF assms]
  have i: "py_find (s @ CHR '':'' # rest) (CHR '':'') 0 = int (length s)" by (rule h(3))
  have up: "py_upto (s @ CHR '':'' # rest) (int (length s)) = s"
    "py_from (s @ CHR '':'' # rest) (int (length s) + 1) = rest"
    by (simp_all add: py_upto_def py_from_def nat_add_distrib)
  show ?thesis
    unfolding split_scheme_def i Let_def up using h(4,5,6,7) by simp
qed

lemma split_fragment_query_canonical:
  assumes "CHR ''?'' \<notin> set p" "CHR ''#'' \<notin> set p" "CHR ''#'' \<notin> set q"
  shows "split_fragment_query (p @ (if q = [] then [] else CHR ''?'' # q)) = (p, q, [])"
proof (cases "q = []")
  case True
  then show ?thesis using assms by (simp add: split_fragment_query_def)
next
  case False
  have "takeWhile (\<lambda>x. x \<noteq> CHR ''?'') (p @ CHR ''?'' # q) = p"
    by (rule tw_stop) (use assms(1) in simp)
  moreover have "dropWhile (\<lambda>x. x \<noteq> CHR ''?'') (p @ CHR ''?'' # q) = CHR ''?'' # q"
    by (rule dw_stop) (use assms(1) in simp)
  ultimately show ?thesis
    using False assms by (simp add: split_fragment_query_def split_first_def)
qed

lemma urlsplit_canonical:
  assumes s: "s = ''http'' \<or> s = ''https''"
    and n: "CHR ''/'' \<notin> set n" "CHR ''?'' \<notin> set n" "CHR ''#'' \<notin> set n" "safe n"
      "bracketed_netloc_ok lib n"
    and p: "CHR ''?'' \<notin> set p" "CHR ''#'' \<notin> set p" "safe p"
    and q: "CHR ''#'' \<notin> set q" "safe q"
  shows "urlsplit lib (s @ ''://'' @ n @ CHR ''/'' # p @ (if q = [] then [] else CHR ''?'' # q))
         = Inr (s, n, CHR ''/'' # p, q, [])"
proof -
  define qs where "qs = (if q = [] then [] else CHR ''?'' # q)"
  define rest where "rest = ''//'' @ n @ CHR ''/'' # p @ qs"
  define c where "c = s @ CHR '':'' # rest"
  note h = http_scheme_facts[OF s]
  have sqs: "safe qs" using q(2) by (simp add: qs_def unsafe_url_byte_def)
  have "safe rest"
    using n(4) p(3) sqs by (simp add: rest_def unsafe_url_byte_def)
  then have "safe c" using safe_http[OF s] by (simp add: c_def unsafe_url_byte_def)
  then have url2: "filter (\<lambda>c. \<not> unsafe_url_byte c) (dropWhile c0_control_or_space c) = c"
    unfolding c_def h(1) by (simp add: safe_filter)
  have sc: "split_scheme c = (s, rest)"
    unfolding c_def by (rule split_scheme_canonical[OF s])
  have t2: "take 2 rest = ''//''" by (simp add: rest_def)
  have sn: "splitnetloc rest = (n, CHR ''/'' # p @ qs)"
    unfolding rest_def using splitnetloc_slash[OF n(1,2,3)] by simp
  have fq: "split_fragment_query (CHR ''/'' # p @ qs) = (CHR ''/'' # p, q, [])"
    using split_fragment_query_canonical[of "CHR ''/'' # p" q] p(1,2) q(1)
    by (simp add: qs_def)
  have "urlsplit lib c = Inr (s, n, CHR ''/'' # p, q, [])"
    by (simp only: urlsplit_def Let_def url2 sc prod.case t2 sn fq n(5) if_True
        not_True_eq_False if_False refl)
  then show ?thesis
    by (simp add: c_def rest_def qs_def)
qed

lemma set_py_upto: "set (py_upto s i) \<subseteq> set s"
  by (auto simp: py_upto_def dest: in_set_takeD)

lemma set_py_from: "set (py_from s i) \<subseteq> set s"
  by (auto simp: py_from_def dest: in_set_dropD)

lemma safe_subset: "set a \<subseteq> set b \<Longrightarrow> safe b \<Longrightarrow> safe a"
  by (auto simp: safe_def)

lemma safe_lower: "safe (py_lower s) = safe s"
  by (induction s) (simp_all add: unsafe_lower)

lemma split_scheme_safe:
  assumes "split_scheme url = (sch, url3)" "safe url"
  shows "safe sch" "safe url3"
proof -
  from assms(1) have "sch = [] \<or> (\<exists>i. sch = py_lower (py_upto url i))"
    by (auto simp: split_scheme_def Let_def split: if_splits)
  then show "safe sch"
    using safe_subset[OF set_py_upto assms(2)] by (auto simp: safe_lower)
  from assms(1) have "url3 = url \<or> (\<exists>i. url3 = py_from url i)"
    by (auto simp: split_scheme_def Let_def split: if_splits)
  then show "safe url3"
    using safe_subset[OF set_py_from assms(2)] assms(2) by auto
qed

lemma length_takeWhile_conj:
  "length (takeWhile (\<lambda>c. P c \<and> Q c) r) = min (length (takeWhile P r)) (length (takeWhile Q r))"
  by (induction r) auto

lemma length_takeWhile_notin: "x \<notin> set r \<Longrightarrow> length (takeWhile (\<lambda>c. c \<noteq> x) r) = length r"
  by (induction r) auto

lemma find_delim:
  "(if py_find (a # b # r) x 2 \<ge> 0 then min d (py_find (a # b # r) x 2) else d) =
   (if x \<in> set r then min d (int (2 + length (takeWhile (\<lambda>c. c \<noteq> x) r))) else d)"
  by (simp add: py_find_def)

lemma splitnetloc_takeWhile:
  "splitnetloc (a # b # r) =
     (takeWhile (\<lambda>c. c \<noteq> CHR ''/'' \<and> c \<noteq> CHR ''?'' \<and> c \<noteq> CHR ''#'') r,
      dropWhile (\<lambda>c. c \<noteq> CHR ''/'' \<and> c \<noteq> CHR ''?'' \<and> c \<noteq> CHR ''#'') r)"
proof -
  let ?P = "\<lambda>c. c \<noteq> CHR ''/'' \<and> c \<noteq> CHR ''?'' \<and> c \<noteq> CHR ''#''"
  define k where "k = length (takeWhile ?P r)"
  define l1 where "l1 = length (takeWhile (\<lambda>c. c \<noteq> CHR ''/'') r)"
  define l2 where "l2 = length (takeWhile (\<lambda>c. c \<noteq> CHR ''?'') r)"
  define l3 where "l3 = length (takeWhile (\<lambda>c. c \<noteq> CHR ''#'') r)"
  have k: "k = min l1 (min l2 l3)"
    unfolding k_def l1_def l2_def l3_def by (simp only: length_takeWhile_conj)
  have le: "l1 \<le> length r" "l2 \<le> length r" "l3 \<le> length r"
    by (simp_all add: l1_def l2_def l3_def length_takeWhile_le)
  have n1: "CHR ''/'' \<notin> set r \<Longrightarrow> l1 = length r"
    and n2: "CHR ''?'' \<notin> set r \<Longrightarrow> l2 = length r"
    and n3: "CHR ''#'' \<notin> set r \<Longrightarrow> l3 = length r"
    by (simp_all add: l1_def l2_def l3_def length_takeWhile_notin)
  define d1 where "d1 = (if CHR ''/'' \<in> set r then min (int (length (a # b # r))) (int (2 + l1))
                         else int (length (a # b # r)))"
  define d2 where "d2 = (if CHR ''?'' \<in> set r then min d1 (int (2 + l2)) else d1)"
  define d3 where "d3 = (if CHR ''#'' \<in> set r then min d2 (int (2 + l3)) else d2)"
  have d3: "d3 = int (2 + k)"
    unfolding d3_def d2_def d1_def k using le n1 n2 n3 by auto
  have "splitnetloc (a # b # r) = (drop 2 (py_upto (a # b # r) d3), py_from (a # b # r) d3)"
    unfolding splitnetloc_def Let_def find_delim d3_def d2_def d1_def l1_def l2_def l3_def
    by (rule refl)
  also have "\<dots> = (take k r, drop k r)"
  proof -
    have n: "nat (int (2 + k)) = Suc (Suc k)" by simp
    have "\<not> int (2 + k) < 0" by simp
    then show ?thesis unfolding d3 py_upto_def py_from_def n by simp
  qed
  also have "\<dots> = (takeWhile ?P r, dropWhile ?P r)"
    unfolding k_def by (simp add: takeWhile_eq_take[symmetric] dropWhile_eq_drop[symmetric])
  finally show ?thesis .
qed

lemma splitnetloc_props:
  assumes "take 2 url3 = ''//''" "splitnetloc url3 = (nl, url4)"
  shows "CHR ''/'' \<notin> set nl" "CHR ''?'' \<notin> set nl" "CHR ''#'' \<notin> set nl"
    "safe url3 \<Longrightarrow> safe nl" "safe url3 \<Longrightarrow> safe url4"
proof -
  from assms(1) obtain r where u: "url3 = CHR ''/'' # CHR ''/'' # r"
    by (cases url3; cases "tl url3") auto
  let ?P = "\<lambda>c. c \<noteq> CHR ''/'' \<and> c \<noteq> CHR ''?'' \<and> c \<noteq> CHR ''#''"
  from assms(2) have nl: "nl = takeWhile ?P r" and u4: "url4 = dropWhile ?P r"
    unfolding u splitnetloc_takeWhile by simp_all
  show "CHR ''/'' \<notin> set nl" "CHR ''?'' \<notin> set nl" "CHR ''#'' \<notin> set nl"
    unfolding nl by (auto dest: set_takeWhileD)
  show "safe url3 \<Longrightarrow> safe nl"
    unfolding nl u by (auto simp: safe_def dest: set_takeWhileD)
  show "safe url3 \<Longrightarrow> safe url4"
    unfolding u4 u by (auto simp: safe_def dest: set_dropWhileD)
qed

lemma split_first_props:
  assumes "split_first x s = (a, b)"
  shows "x \<notin> set a" "set a \<subseteq> set s" "set b \<subseteq> set s"
  using assms
  by (auto simp: split_first_def dest: set_takeWhileD set_dropWhileD in_set_dropD)

lemma split_fragment_query_props:
  assumes "split_fragment_query url = (p, q, fr)"
  shows "CHR ''?'' \<notin> set p" "CHR ''#'' \<notin> set p" "CHR ''#'' \<notin> set q"
    "set p \<subseteq> set url" "set q \<subseteq> set url"
proof -
  obtain u1 f1 where a: "(if CHR ''#'' \<in> set url then split_first (CHR ''#'') url else (url, [])) = (u1, f1)"
    by (cases "(if CHR ''#'' \<in> set url then split_first (CHR ''#'') url else (url, []))") auto
  obtain u2 q2 where b: "(if CHR ''?'' \<in> set u1 then split_first (CHR ''?'') u1 else (u1, [])) = (u2, q2)"
    by (cases "(if CHR ''?'' \<in> set u1 then split_first (CHR ''?'') u1 else (u1, []))") auto
  from assms have e: "p = u2" "q = q2"
    by (simp_all add: split_fragment_query_def a b)
  have u1: "CHR ''#'' \<notin> set u1" "set u1 \<subseteq> set url"
    using a split_first_props[of "CHR ''#''" url u1 f1] by (auto split: if_splits)
  have u2: "CHR ''?'' \<notin> set u2" "set u2 \<subseteq> set u1" "set q2 \<subseteq> set u1"
    using b split_first_props[of "CHR ''?''" u1 u2 q2] by (auto split: if_splits)
  show "CHR ''?'' \<notin> set p" "CHR ''#'' \<notin> set p" "CHR ''#'' \<notin> set q"
    "set p \<subseteq> set url" "set q \<subseteq> set url"
    using u1 u2 unfolding e by blast+
qed

lemma urlsplit_props:
  assumes "urlsplit lib u = Inr (sch, nl, pa, q, fr)"
  shows "CHR ''/'' \<notin> set nl" "CHR ''?'' \<notin> set nl" "CHR ''#'' \<notin> set nl" "safe nl"
    "bracketed_netloc_ok lib nl" "CHR ''?'' \<notin> set pa" "CHR ''#'' \<notin> set pa" "safe pa"
    "CHR ''#'' \<notin> set q" "safe q" "safe sch"
proof -
  define url2 where "url2 = filter (\<lambda>c. \<not> unsafe_url_byte c) (dropWhile c0_control_or_space u)"
  have s2: "safe url2" by (simp add: url2_def safe_def)
  obtain sch0 url3 where sc: "split_scheme url2 = (sch0, url3)"
    by (cases "split_scheme url2") auto
  note ss = split_scheme_safe[OF sc s2]
  have "CHR ''/'' \<notin> set nl \<and> CHR ''?'' \<notin> set nl \<and> CHR ''#'' \<notin> set nl \<and> safe nl \<and>
    bracketed_netloc_ok lib nl \<and> CHR ''?'' \<notin> set pa \<and> CHR ''#'' \<notin> set pa \<and> safe pa \<and>
    CHR ''#'' \<notin> set q \<and> safe q \<and> safe sch"
  proof (cases "take 2 url3 = ''//''")
    case True
    obtain nl0 url4 where sn: "splitnetloc url3 = (nl0, url4)"
      by (cases "splitnetloc url3") auto
    obtain p0 q0 f0 where fq: "split_fragment_query url4 = (p0, q0, f0)"
      by (cases "split_fragment_query url4") auto
    from assms have ok: "bracketed_netloc_ok lib nl0"
      and e: "sch = sch0" "nl = nl0" "pa = p0" "q = q0"
      unfolding urlsplit_def Let_def url2_def[symmetric] sc prod.case sn fq
      using True by (auto split: if_splits)
    note n = splitnetloc_props[OF True sn]
    note f = split_fragment_query_props[OF fq]
    have "safe url4" using n(5) ss(2) by simp
    then have "safe p0" "safe q0" using f(4,5) by (auto intro: safe_subset)
    then show ?thesis
      unfolding e using n(1,2,3) n(4)[OF ss(2)] ok f(1,2,3) ss(1) by simp
  next
    case False
    obtain p0 q0 f0 where fq: "split_fragment_query url3 = (p0, q0, f0)"
      by (cases "split_fragment_query url3") auto
    from assms have e: "sch = sch0" "nl = []" "pa = p0" "q = q0"
      unfolding urlsplit_def Let_def url2_def[symmetric] sc prod.case fq
      using False by (auto split: if_splits)
    note f = split_fragment_query_props[OF fq]
    have "safe p0" "safe q0" using f(4,5) ss(2) by (auto intro: safe_subset)
    then show ?thesis
      unfolding e using f(1,2,3) ss(1) by (simp add: bracketed_netloc_ok_def)
  qed
  then show "CHR ''/'' \<notin> set nl" "CHR ''?'' \<notin> set nl" "CHR ''#'' \<notin> set nl" "safe nl"
    "bracketed_netloc_ok lib nl" "CHR ''?'' \<notin> set pa" "CHR ''#'' \<notin> set pa" "safe pa"
    "CHR ''#'' \<notin> set q" "safe q" "safe sch"
    by blast+
qed

lemma set_splitparams: "splitparams u = (a, b) \<Longrightarrow> set a \<subseteq> set u"
  using set_py_upto by (auto simp: splitparams_def Let_def split: if_splits)

lemma urlparse_props:
  assumes "urlparse lib u = Inr P"
  shows "CHR ''/'' \<notin> set (netloc P)" "CHR ''?'' \<notin> set (netloc P)" "CHR ''#'' \<notin> set (netloc P)"
    "safe (netloc P)" "bracketed_netloc_ok lib (netloc P)"
    "CHR ''?'' \<notin> set (path P)" "CHR ''#'' \<notin> set (path P)" "safe (path P)"
    "CHR ''#'' \<notin> set (query P)" "safe (query P)" "safe (scheme P)"
proof -
  from assms obtain sch nl pa q fr where us: "urlsplit lib u = Inr (sch, nl, pa, q, fr)"
    by (auto simp: urlparse_def split: sum.splits)
  note p = urlsplit_props[OF us]
  obtain a b where ab: "(if sch \<in> set (uses_params lib) \<and> CHR '';'' \<in> set pa then splitparams pa else (pa, [])) = (a, b)"
    by (cases "(if sch \<in> set (uses_params lib) \<and> CHR '';'' \<in> set pa then splitparams pa else (pa, []))") auto
  from assms have P: "P = \<lparr>scheme = sch, netloc = nl, path = a, params = b, query = q, fragment = fr\<rparr>"
    by (simp add: urlparse_def us ab)
  have sub: "set a \<subseteq> set pa"
    using ab set_splitparams[of pa a b] by (auto split: if_splits)
  show "CHR ''/'' \<notin> set (netloc P)" "CHR ''?'' \<notin> set (netloc P)" "CHR ''#'' \<notin> set (netloc P)"
    "safe (netloc P)" "bracketed_netloc_ok lib (netloc P)"
    "CHR ''#'' \<notin> set (query P)" "safe (query P)" "safe (scheme P)"
    using p by (simp_all add: P)
  show "CHR ''?'' \<notin> set (path P)" "CHR ''#'' \<notin> set (path P)" "safe (path P)"
    using p(6,7,8) sub by (auto simp: P intro: safe_subset)
qed

lemma ipvfuture_match_lower: "ipvfuture_match h \<Longrightarrow> ipvfuture_match (py_lower h)"
proof (cases h)
  case Nil
  then show "ipvfuture_match h \<Longrightarrow> ?thesis" by (simp add: ipvfuture_match_def)
next
  case (Cons c rest)
  assume m: "ipvfuture_match h"
  have tw: "takeWhile hex_digit (py_lower rest) = py_lower (takeWhile hex_digit rest)"
    by (induction rest) (simp_all add: hex_digit_lower)
  have dw: "dropWhile hex_digit (py_lower rest) = py_lower (dropWhile hex_digit rest)"
    by (induction rest) (simp_all add: hex_digit_lower)
  from m obtain tail where c: "c = CHR ''v''" and t: "takeWhile hex_digit rest \<noteq> []"
    and d: "dropWhile hex_digit rest = CHR ''.'' # tail" and tl: "tail \<noteq> []"
    and nl: "CHR 0x0A \<notin> set tail"
    unfolding Cons ipvfuture_match_def by (auto split: list.splits)
  have d': "dropWhile hex_digit (py_lower rest) = CHR ''.'' # py_lower tail"
    unfolding dw d using lower_specials(8)[of "CHR ''.''"] by simp
  have t': "takeWhile hex_digit (py_lower rest) \<noteq> []"
    unfolding tw using t by simp
  have nl': "CHR 0x0A \<notin> set (py_lower tail)"
    using nl by (simp add: in_set_lower caseless_specials)
  show ?thesis
    unfolding Cons ipvfuture_match_def using c t' d' tl nl' lower_v[of c]
    by simp
qed

lemma check_bracketed_host_lower:
  assumes "ipv6_lower_closed f" "check_bracketed_host f h"
  shows "check_bracketed_host f (py_lower h)"
proof (cases "take 1 h = ''v''")
  case True
  then have "take 1 (py_lower h) = ''v''" by (cases h) (auto simp: lower_v)
  with True assms(2) show ?thesis
    by (simp add: check_bracketed_host_def ipvfuture_match_lower)
next
  case False
  with assms(2) have fh: "f h" by (simp add: check_bracketed_host_def)
  with assms(1) have l: "f (py_lower h)" and v: "take 1 h \<noteq> ''V''"
    by (auto simp: ipv6_lower_closed_def)
  from False v have "take 1 (py_lower h) \<noteq> ''v''" by (cases h) (auto simp: lower_v)
  with l show ?thesis by (simp add: check_bracketed_host_def)
qed

lemma after_last_at_lower: "after_last_at (py_lower nl) = py_lower (after_last_at nl)"
proof -
  have c: "caseless (CHR ''@'')" by (simp add: caseless_def)
  have r: "rev (py_lower nl) = py_lower (rev nl)" by (simp add: py_lower_def rev_map)
  show ?thesis
    unfolding after_last_at_def r takeWhile_lower[OF c] by (simp add: py_lower_def rev_map)
qed

lemma check_bracketed_netloc_lower:
  assumes "ipv6_lower_closed f" "check_bracketed_netloc f nl"
  shows "check_bracketed_netloc f (py_lower nl)"
proof -
  define hp where "hp = after_last_at nl"
  define bb where "bb = takeWhile (\<lambda>x. x \<noteq> CHR ''['') hp"
  define br where "br = drop 1 (dropWhile (\<lambda>x. x \<noteq> CHR ''['') hp)"
  define hn where "hn = takeWhile (\<lambda>x. x \<noteq> CHR '']'') br"
  define port where "port = drop 1 (dropWhile (\<lambda>x. x \<noteq> CHR '']'') br)"
  define hn2 where "hn2 = takeWhile (\<lambda>x. x \<noteq> CHR '':'') hp"
  have n: "check_bracketed_netloc f nl =
      (if CHR ''['' \<in> set hp
       then (if bb \<noteq> [] then False
             else (if port \<noteq> [] \<and> take 1 port \<noteq> '':'' then False
                   else check_bracketed_host f hn))
       else check_bracketed_host f hn2)"
    unfolding check_bracketed_netloc_def Let_def hn_def port_def hn2_def bb_def br_def hp_def
    by (rule refl)
  have h1: "after_last_at (py_lower nl) = py_lower hp"
    by (simp add: hp_def after_last_at_lower)
  have h2: "takeWhile (\<lambda>x. x \<noteq> CHR ''['') (py_lower hp) = py_lower bb"
    by (simp add: bb_def takeWhile_lower caseless_specials)
  have h3: "drop 1 (dropWhile (\<lambda>x. x \<noteq> CHR ''['') (py_lower hp)) = py_lower br"
    by (simp add: br_def dropWhile_lower caseless_specials py_lower_drop)
  have h4: "takeWhile (\<lambda>x. x \<noteq> CHR '']'') (py_lower br) = py_lower hn"
    by (simp add: hn_def takeWhile_lower caseless_specials)
  have h5: "drop 1 (dropWhile (\<lambda>x. x \<noteq> CHR '']'') (py_lower br)) = py_lower port"
    by (simp add: port_def dropWhile_lower caseless_specials py_lower_drop)
  have h6: "takeWhile (\<lambda>x. x \<noteq> CHR '':'') (py_lower hp) = py_lower hn2"
    by (simp add: hn2_def takeWhile_lower caseless_specials)
  have l: "check_bracketed_netloc f (py_lower nl) =
      (if CHR ''['' \<in> set (py_lower hp)
       then (if py_lower bb \<noteq> [] then False
             else (if py_lower port \<noteq> [] \<and> take 1 (py_lower port) \<noteq> '':'' then False
                   else check_bracketed_host f (py_lower hn)))
       else check_bracketed_host f (py_lower hn2))"
    unfolding check_bracketed_netloc_def Let_def h1 h2 h3 h4 h5 h6
    by (rule refl)
  have t1: "(take 1 (py_lower port) \<noteq> '':'') = (take 1 port \<noteq> '':'')"
    by (cases port) (simp_all add: lower_specials)
  have i: "(CHR ''['' \<in> set (py_lower hp)) = (CHR ''['' \<in> set hp)"
    by (simp add: in_set_lower caseless_specials)
  note cl = check_bracketed_host_lower[OF assms(1)]
  show ?thesis
  proof (cases "CHR ''['' \<in> set hp")
    case True
    with assms(2) n have "bb = []" "\<not> (port \<noteq> [] \<and> take 1 port \<noteq> '':'')"
      "check_bracketed_host f hn"
      by (auto split: if_splits)
    then show ?thesis
      unfolding l i t1 using True cl[of hn] by simp
  next
    case False
    with assms(2) n have "check_bracketed_host f hn2" by simp
    then show ?thesis
      unfolding l i using False cl[of hn2] by simp
  qed
qed

lemma bracketed_netloc_ok_lower:
  assumes "ipv6_lower_closed (is_ipv6 lib)" "bracketed_netloc_ok lib nl"
  shows "bracketed_netloc_ok lib (py_lower nl)"
  using assms(2) check_bracketed_host_lower[OF assms(1)] check_bracketed_netloc_lower[OF assms(1)]
  unfolding bracketed_netloc_ok_def
  by (simp add: in_set_lower caseless_specials bracketed_host_lower)

lemma canonical_scheme_http:
  assumes "safe sch"
  shows "canonical_scheme sch = ''http'' \<or> canonical_scheme sch = ''https''"
proof -
  have "safe (py_lower sch)" using assms by (simp add: safe_lower)
  then have "py_lower sch \<noteq> ''http'' @ [CHR 0x0A]" "py_lower sch \<noteq> ''https'' @ [CHR 0x0A]"
    by (auto simp: unsafe_url_byte_def)
  then show ?thesis
    by (auto simp: canonical_scheme_def CANONICAL_SCHEME_RE_match_def)
qed

lemma canonical_scheme_idem:
  "s = ''http'' \<or> s = ''https'' \<Longrightarrow> canonical_scheme s = s"
  by (auto simp: canonical_scheme_def CANONICAL_SCHEME_RE_match_def py_lower_char_def)

lemma rooted_cons: "\<exists>p. rooted pa = CHR ''/'' # p \<and> set p \<subseteq> set pa"
  by (cases pa) (auto simp: rooted_def)

lemma rooted_idem: "rooted (rooted pa) = rooted pa"
  by (cases pa) (auto simp: rooted_def)

lemma urlunparse_canonical:
  assumes "s = ''http'' \<or> s = ''https''" "knows_http lib"
  shows "urlunparse lib (s, nl, (if pa \<noteq> [] then pa else ''/''), [], q, [])
         = s @ '':'' @ (if writes_authority lib nl pa then ''//'' @ nl @ rooted pa else pa) @
           (if q = [] then [] else CHR ''?'' # q)"
proof -
  have u: "s \<noteq> [] \<and> s \<in> set (uses_netloc lib)"
    using http_scheme_facts(8)[OF assms(1)] knows_http_schemes(1)[OF assms(2,1)] by simp
  show ?thesis
    unfolding urlunparse_def urlunsplit_def Let_def prod.case writes_authority_def using u
    by (cases pa) (auto simp: rooted_def)
qed

lemma writes_authority_lower [simp]:
  "writes_authority lib (py_lower nl) pa = writes_authority lib nl pa"
  by (simp add: writes_authority_def)

lemma canonicalize_form:
  assumes "urlparse lib u = Inr P" "knows_http lib"
  shows "canonicalize lib u =
         Inr (canonical_scheme (scheme P) @ '':'' @
              (if writes_authority lib (netloc P) (path P)
               then ''//'' @ py_lower (netloc P) @ rooted (path P) else path P) @
              (if query P = [] then [] else CHR ''?'' # query P))"
proof -
  note s = canonical_scheme_http[OF urlparse_props(11)[OF assms(1)]]
  show ?thesis
    unfolding canonicalize_def assms sum.case Let_def canonical_scheme_def[symmetric]
    using urlunparse_canonical[OF s assms(2)] by simp
qed

lemma urlparse_of_canonical:
  assumes cl: "ipv6_lower_closed (is_ipv6 lib)" and kh: "knows_http lib"
    and P: "urlparse lib u = Inr P" and c: "canonicalize lib u = Inr c"
    and wa: "writes_authority lib (netloc P) (path P)"
  shows "urlparse lib c =
         Inr (let pp = (if CHR '';'' \<in> set (rooted (path P)) then splitparams (rooted (path P))
                        else (rooted (path P), []))
              in \<lparr>scheme = canonical_scheme (scheme P), netloc = py_lower (netloc P),
                  path = fst pp, params = snd pp, query = query P, fragment = []\<rparr>)"
proof -
  note pr = urlparse_props[OF P]
  note s = canonical_scheme_http[OF pr(11)]
  obtain p where rp: "rooted (path P) = CHR ''/'' # p" and sub: "set p \<subseteq> set (path P)"
    using rooted_cons by blast
  have p: "CHR ''?'' \<notin> set p" "CHR ''#'' \<notin> set p" "safe p"
    using sub pr(6,7,8) by (auto intro: safe_subset)
  have n: "CHR ''/'' \<notin> set (py_lower (netloc P))" "CHR ''?'' \<notin> set (py_lower (netloc P))"
    "CHR ''#'' \<notin> set (py_lower (netloc P))" "safe (py_lower (netloc P))"
    "bracketed_netloc_ok lib (py_lower (netloc P))"
    using pr(1,2,3,4) bracketed_netloc_ok_lower[OF cl pr(5)]
    by (simp_all add: in_set_lower caseless_specials safe_lower)
  have cf: "c = canonical_scheme (scheme P) @ ''://'' @ py_lower (netloc P) @ CHR ''/'' # p @
              (if query P = [] then [] else CHR ''?'' # query P)"
    using c canonicalize_form[OF P kh] rp wa by simp
  have us: "urlsplit lib c = Inr (canonical_scheme (scheme P), py_lower (netloc P), CHR ''/'' # p, query P, [])"
    unfolding cf by (rule urlsplit_canonical[OF s n p pr(9,10)])
  have up: "canonical_scheme (scheme P) \<in> set (uses_params lib)"
    using knows_http_schemes(2)[OF kh s] .
  show ?thesis
    unfolding urlparse_def us sum.case prod.case rp Let_def using up
    by (simp add: split_beta)
qed

lemma last_segment_no_slash: "CHR ''/'' \<notin> set (last_segment s)"
  by (auto simp: last_segment_def dest: set_takeWhileD)

lemma split_at_last_slash:
  assumes "CHR ''/'' \<in> set s"
  shows "\<exists>a. s = a @ CHR ''/'' # last_segment s \<and> py_rfind s (CHR ''/'') = int (length a)"
proof -
  let ?P = "\<lambda>c. c \<noteq> CHR ''/''"
  have "dropWhile ?P (rev s) \<noteq> []" using assms by (simp add: dropWhile_eq_Nil_conv)
  then obtain y ys where d: "dropWhile ?P (rev s) = y # ys" by (cases "dropWhile ?P (rev s)") auto
  have y: "y = CHR ''/''" using hd_dropWhile[of ?P "rev s"] d by force
  have "rev s = takeWhile ?P (rev s) @ CHR ''/'' # ys"
    using takeWhile_dropWhile_id[of ?P "rev s"] d y by simp
  then have "rev (rev s) = rev (takeWhile ?P (rev s) @ CHR ''/'' # ys)" by simp
  then have s: "s = rev ys @ CHR ''/'' # last_segment s"
    by (simp add: last_segment_def)
  have "length s = length ys + 1 + length (takeWhile ?P (rev s))"
    using arg_cong[OF s, of length] by (simp add: last_segment_def)
  then have "py_rfind s (CHR ''/'') = int (length (rev ys))"
    using assms by (simp add: py_rfind_def)
  with s show ?thesis by blast
qed

lemma splitparams_no_params:
  assumes "CHR ''/'' \<in> set s" "CHR '';'' \<notin> set (last_segment s)"
  shows "splitparams s = (s, [])"
proof -
  from split_at_last_slash[OF assms(1)] obtain a where
    s: "s = a @ CHR ''/'' # last_segment s" and r: "py_rfind s (CHR ''/'') = int (length a)"
    by blast
  have "drop (length a) s = CHR ''/'' # last_segment s"
    by (subst s) simp
  then have "py_find s (CHR '';'') (nat (py_rfind s (CHR ''/''))) = - 1"
    unfolding r py_find_def Let_def using assms(2) by simp
  then show ?thesis
    using assms(1) by (simp add: splitparams_def)
qed

lemma length_takeWhile_in:
  "x \<in> set l \<Longrightarrow> length (takeWhile (\<lambda>c. c \<noteq> x) l) < length l"
  by (induction l) auto

lemma splitparams_with_params:
  assumes "CHR ''/'' \<in> set s" "CHR '';'' \<in> set (last_segment s)" "splitparams s = (a, b)"
  shows "length a < length s" "take 1 a = take 1 s" "a \<noteq> []"
proof -
  from split_at_last_slash[OF assms(1)] obtain a0 where
    s: "s = a0 @ CHR ''/'' # last_segment s" and r: "py_rfind s (CHR ''/'') = int (length a0)"
    by blast
  define k where "k = length (takeWhile (\<lambda>x. x \<noteq> CHR '';'') (CHR ''/'' # last_segment s))"
  have d: "drop (length a0) s = CHR ''/'' # last_segment s"
    by (subst s) simp
  have i: "py_find s (CHR '';'') (nat (py_rfind s (CHR ''/''))) = int (length a0 + k)"
    unfolding r py_find_def Let_def k_def using assms(2) by (simp add: d)
  have k: "1 \<le> k" "k < length (CHR ''/'' # last_segment s)"
  proof -
    show "1 \<le> k" by (simp add: k_def)
    have "CHR '';'' \<in> set (CHR ''/'' # last_segment s)" using assms(2) by simp
    then show "k < length (CHR ''/'' # last_segment s)"
      unfolding k_def by (rule length_takeWhile_in)
  qed
  have ls: "length s = length a0 + length (CHR ''/'' # last_segment s)"
    using arg_cong[OF s, of length] by simp
  have nn: "nat (int (length a0 + k)) = length a0 + k" by simp
  from assms(3) have a: "a = take (length a0 + k) s"
    unfolding splitparams_def Let_def i py_upto_def nn using assms(1)
    by auto
  show "length a < length s" unfolding a using k ls by simp
  show "take 1 a = take 1 s" unfolding a using k by (cases s) auto
  show "a \<noteq> []" unfolding a using k ls by (cases s) auto
qed

lemma last_segment_rooted: "last_segment (rooted pa) = last_segment pa"
proof -
  have "takeWhile (\<lambda>c. c \<noteq> CHR ''/'') (xs @ [CHR ''/'']) = takeWhile (\<lambda>c. c \<noteq> CHR ''/'') xs" for xs
    by (induction xs) simp_all
  then have c: "last_segment (CHR ''/'' # pa) = last_segment pa"
    by (simp add: last_segment_def)
  show ?thesis
  proof (cases pa)
    case Nil
    then show ?thesis by (simp add: rooted_def last_segment_def)
  next
    case (Cons x xs)
    then show ?thesis using c by (auto simp: rooted_def)
  qed
qed

lemma rooted_has_slash: "CHR ''/'' \<in> set (rooted pa)"
  by (cases pa) (auto simp: rooted_def)

lemma splitparams_prefix: "splitparams s = (a, b) \<Longrightarrow> \<exists>k. a = take k s"
proof -
  assume a: "splitparams s = (a, b)"
  have "\<exists>k. py_upto s i = take k s" for i by (auto simp: py_upto_def)
  moreover have "\<exists>k. s = take k s" by (rule exI[of _ "length s"]) simp
  ultimately show ?thesis
    using a by (auto simp: splitparams_def Let_def split: if_splits)
qed

lemma take2_take: "take 2 (take k s) = ''//'' \<Longrightarrow> take 2 s = ''//''"
proof -
  assume a: "take 2 (take k s) = ''//''"
  then have "length (take 2 (take k s)) = 2" by simp
  then have "2 \<le> k" by simp
  then have "take 2 (take k s) = take 2 s" by (simp add: min_def)
  with a show ?thesis by simp
qed

lemma take2_rooted: "take 2 pa \<noteq> ''//'' \<Longrightarrow> take 2 (rooted pa) \<noteq> ''//''"
  by (cases pa) (auto simp: rooted_def)

lemma canonicalize_twice:
  assumes cl: "ipv6_lower_closed (is_ipv6 lib)" and kh: "knows_http lib"
    and c: "canonicalize lib u = Inr c" and P: "urlparse lib u = Inr P"
    and wa: "writes_authority lib (netloc P) (path P)"
  shows "(canonicalize lib c = Inr c) = (CHR '';'' \<notin> set (last_segment (path P)))"
proof -
  define rp where "rp = rooted (path P)"
  define s where "s = canonical_scheme (scheme P)"
  define qs where "qs = (if query P = [] then [] else CHR ''?'' # query P)"
  define pp where "pp = (if CHR '';'' \<in> set rp then splitparams rp else (rp, []))"
  have sh: "s = ''http'' \<or> s = ''https''"
    unfolding s_def by (rule canonical_scheme_http[OF urlparse_props(11)[OF P]])
  have cf: "c = s @ ''://'' @ py_lower (netloc P) @ rp @ qs"
    using c canonicalize_form[OF P kh] wa by (simp add: s_def rp_def qs_def)
  have P': "urlparse lib c = Inr \<lparr>scheme = s, netloc = py_lower (netloc P),
                  path = fst pp, params = snd pp, query = query P, fragment = []\<rparr>"
    using urlparse_of_canonical[OF cl kh P c wa] by (simp add: Let_def s_def rp_def pp_def)
  have "\<exists>k. fst pp = take k rp"
  proof (cases "CHR '';'' \<in> set rp")
    case True
    then have "splitparams rp = (fst pp, snd pp)" by (simp add: pp_def)
    then show ?thesis by (rule splitparams_prefix)
  next
    case False
    then have "fst pp = take (length rp) rp" by (simp add: pp_def)
    then show ?thesis by blast
  qed
  then obtain k where k: "fst pp = take k rp" by blast
  have "take 2 (fst pp) = ''//'' \<Longrightarrow> take 2 rp = ''//''"
    unfolding k by (rule take2_take)
  then have wa': "writes_authority lib (netloc P) (fst pp)"
    using wa take2_rooted[of "path P"] unfolding writes_authority_def rp_def by blast
  have c2: "canonicalize lib c = Inr (s @ ''://'' @ py_lower (netloc P) @ rooted (fst pp) @ qs)"
    using canonicalize_form[OF P' kh] canonical_scheme_idem[OF sh] wa'
    by (simp add: py_lower_idem qs_def)
  have "(canonicalize lib c = Inr c) =
        (s @ ''://'' @ py_lower (netloc P) @ rooted (fst pp) @ qs = c)"
    by (simp only: c2 sum.inject)
  also have "\<dots> = (rooted (fst pp) = rp)"
    by (subst cf) simp
  finally have eq: "(canonicalize lib c = Inr c) = (rooted (fst pp) = rp)" .
  have ls: "last_segment rp = last_segment (path P)"
    unfolding rp_def by (rule last_segment_rooted)
  have sl: "CHR ''/'' \<in> set rp" unfolding rp_def by (rule rooted_has_slash)
  show ?thesis
  proof (cases "CHR '';'' \<in> set (last_segment (path P))")
    case False
    then have "splitparams rp = (rp, [])"
      using splitparams_no_params[OF sl] ls by simp
    then have "fst pp = rp" by (simp add: pp_def)
    then have "rooted (fst pp) = rp" by (simp add: rp_def rooted_idem)
    with eq False show ?thesis by simp
  next
    case True
    then have in_ls: "CHR '';'' \<in> set (last_segment rp)" using ls by simp
    have "CHR '';'' \<in> set rp"
      using in_ls by (auto simp: last_segment_def dest: set_takeWhileD)
    then have sp: "splitparams rp = (fst pp, snd pp)" by (simp add: pp_def)
    note w = splitparams_with_params[OF sl in_ls sp]
    have "take 1 rp = ''/''" unfolding rp_def by (cases "path P") (auto simp: rooted_def)
    with w(2,3) have "rooted (fst pp) = fst pp" by (simp add: rooted_def)
    with w(1) have "rooted (fst pp) \<noteq> rp" by auto
    with eq True show ?thesis by simp
  qed
qed

lemma last_segment_after_slash:
  "CHR ''/'' \<notin> set y \<Longrightarrow> last_segment (x @ CHR ''/'' # y) = y"
proof -
  assume a: "CHR ''/'' \<notin> set y"
  have "takeWhile (\<lambda>c. c \<noteq> CHR ''/'') (rev y @ CHR ''/'' # rev x) = rev y"
    by (rule tw_stop) (use a in simp)
  then show ?thesis by (simp add: last_segment_def)
qed

lemma set_last_segment: "set (last_segment s) \<subseteq> set s"
  by (auto simp: last_segment_def dest: set_takeWhileD)

lemma splitparams_path_no_params:
  assumes "CHR '';'' \<in> set u" "splitparams u = (a, b)"
  shows "CHR '';'' \<notin> set (last_segment a)"
proof (cases "CHR ''/'' \<in> set u")
  case False
  have i: "py_find u (CHR '';'') 0 = int (length (takeWhile (\<lambda>x. x \<noteq> CHR '';'') u))"
    using assms(1) by (simp add: py_find_def)
  from assms(2) have "a = takeWhile (\<lambda>x. x \<noteq> CHR '';'') u"
    unfolding splitparams_def Let_def i py_upto_def using False
    by (auto simp: takeWhile_eq_take[symmetric])
  then have "CHR '';'' \<notin> set a" by (auto dest: set_takeWhileD)
  then show ?thesis using set_last_segment by blast
next
  case True
  from split_at_last_slash[OF True] obtain a0 where
    s: "u = a0 @ CHR ''/'' # last_segment u" and r: "py_rfind u (CHR ''/'') = int (length a0)"
    by blast
  define ls where "ls = last_segment u"
  have d: "drop (length a0) u = CHR ''/'' # ls"
    unfolding ls_def by (subst s) simp
  show ?thesis
  proof (cases "CHR '';'' \<in> set ls")
    case False
    then have "splitparams u = (u, [])"
      using splitparams_no_params[OF True] by (simp add: ls_def)
    with assms(2) False show ?thesis by (simp add: ls_def)
  next
    case in_ls: True
    define k where "k = length (takeWhile (\<lambda>x. x \<noteq> CHR '';'') ls)"
    have i: "py_find u (CHR '';'') (nat (py_rfind u (CHR ''/''))) = int (length a0 + Suc k)"
      unfolding r py_find_def Let_def k_def using in_ls by (simp add: d)
    have nn: "nat (int (length a0 + Suc k)) = length a0 + Suc k" by simp
    from assms(2) have a: "a = take (length a0 + Suc k) u"
      unfolding splitparams_def Let_def i py_upto_def nn using True by auto
    have "take (length a0 + Suc k) u = a0 @ CHR ''/'' # take k ls"
      by (subst s) (simp add: ls_def)
    then have a': "a = a0 @ CHR ''/'' # takeWhile (\<lambda>x. x \<noteq> CHR '';'') ls"
      unfolding a k_def by (simp add: takeWhile_eq_take[symmetric])
    have "CHR ''/'' \<notin> set (takeWhile (\<lambda>x. x \<noteq> CHR '';'') ls)"
      using last_segment_no_slash[of u] by (auto simp: ls_def dest: set_takeWhileD)
    then have "last_segment a = takeWhile (\<lambda>x. x \<noteq> CHR '';'') ls"
      unfolding a' by (rule last_segment_after_slash)
    then show ?thesis by (auto dest: set_takeWhileD)
  qed
qed

lemma urlparse_uses_params:
  assumes "urlparse lib u = Inr P" "scheme P \<in> set (uses_params lib)"
  shows "CHR '';'' \<notin> set (last_segment (path P))"
proof -
  from assms(1) obtain sch nl pa q fr where us: "urlsplit lib u = Inr (sch, nl, pa, q, fr)"
    by (auto simp: urlparse_def split: sum.splits)
  obtain a b where ab: "(if sch \<in> set (uses_params lib) \<and> CHR '';'' \<in> set pa then splitparams pa else (pa, [])) = (a, b)"
    by (cases "(if sch \<in> set (uses_params lib) \<and> CHR '';'' \<in> set pa then splitparams pa else (pa, []))") auto
  from assms(1) have P: "P = \<lparr>scheme = sch, netloc = nl, path = a, params = b, query = q, fragment = fr\<rparr>"
    by (simp add: urlparse_def us ab)
  have sch: "sch \<in> set (uses_params lib)" using assms(2) by (simp add: P)
  show ?thesis
  proof (cases "CHR '';'' \<in> set pa")
    case True
    with ab sch have "splitparams pa = (a, b)" by simp
    from splitparams_path_no_params[OF True this] show ?thesis by (simp add: P)
  next
    case False
    with ab have "a = pa" by simp
    with False set_last_segment[of pa] show ?thesis by (auto simp: P)
  qed
qed

text \<open>
  C9, as stated, fails in both revisions: \<open>canonicalize\<close> takes \<open>ws://h/a;b\<close> to
  \<open>http://h/a;b\<close>, and takes that to \<open>http://h/a\<close>. \<open>urlparse\<close> separates the
  params of the last path segment for \<open>http\<close> but not for \<open>ws\<close>, and
  \<open>canonicalize\<close> drops them. With the \<open>urlunsplit\<close> of 3.12.3 it fails also for
  \<open>http:////x\<close>, which has no netloc and the path \<open>//x\<close>: \<open>canonicalize\<close> returns
  \<open>http://x\<close>, and takes that to \<open>http://x/\<close>.
\<close>

theorem canonicalize_not_idempotent_counterexample:
  "canonicalize (cpython_3_11_10 (\<lambda>h. False)) ''ws://h/a;b'' = Inr ''http://h/a;b'' \<and>
   canonicalize (cpython_3_11_10 (\<lambda>h. False)) ''http://h/a;b'' = Inr ''http://h/a'' \<and>
   canonicalize (cpython_3_12_3 (\<lambda>h. False)) ''ws://h/a;b'' = Inr ''http://h/a;b'' \<and>
   canonicalize (cpython_3_12_3 (\<lambda>h. False)) ''http://h/a;b'' = Inr ''http://h/a'' \<and>
   canonicalize (cpython_3_12_3 (\<lambda>h. False)) ''http:////x'' = Inr ''http://x'' \<and>
   canonicalize (cpython_3_12_3 (\<lambda>h. False)) ''http://x'' = Inr ''http://x/''"
  by code_simp

text \<open>
  C9, amended. Let \<open>canonicalize\<close> return \<open>c\<close> on a URL \<open>u\<close> for which \<open>urlunsplit\<close>
  writes the authority: the netloc of \<open>urlparse(u)\<close> is not empty, or its path does
  not begin with \<open>//\<close>, or the revision writes the authority before such a path. Then
  \<open>canonicalize(c) = c\<close> exactly when the path of \<open>urlparse(u)\<close> has no \<open>;\<close> after
  its last \<open>/\<close>; this is so whenever the scheme of \<open>u\<close> is one of those for which
  \<open>urlparse\<close> separates params (\<open>http\<close>, \<open>https\<close>, the empty scheme, ...). This
  holds in every revision of \<open>urllib.parse\<close> described by the record, with
  \<open>http\<close> and \<open>https\<close> in its scheme lists.
\<close>

theorem canonicalize_idempotent_iff_no_params:
  assumes "ipv6_lower_closed (is_ipv6 lib)" and "knows_http lib"
    and "canonicalize lib u = Inr c" and "urlparse lib u = Inr P"
    and "writes_authority lib (netloc P) (path P)"
  shows "((canonicalize lib c = Inr c) = (CHR '';'' \<notin> set (last_segment (path P)))) \<and>
         (scheme P \<in> set (uses_params lib) \<longrightarrow> canonicalize lib c = Inr c)"
  using canonicalize_twice[OF assms] urlparse_uses_params[OF assms(4)] by blast

lemma ipv6_lower_closed_example: "ipv6_lower_closed (\<lambda>h. h = ''::1'')"
  by (auto simp: ipv6_lower_closed_def py_lower_char_def)

lemma knows_http_examples:
  "knows_http (cpython_3_11_10 ip)" "knows_http (cpython_3_12_3 ip)"
  by (simp_all add: knows_http_def cpython_3_11_10_def cpython_3_12_3_def)

lemma is_ipv6_examples:
  "is_ipv6 (cpython_3_11_10 ip) = ip" "is_ipv6 (cpython_3_12_3 ip) = ip"
  by (simp_all add: cpython_3_11_10_def cpython_3_12_3_def)

lemma example_urlparse:
  "urlparse (cpython_3_11_10 (\<lambda>h. h = ''::1'')) ''HTTP://User@[::1]:80/A/p;x?q=1#f'' =
     Inr \<lparr>scheme = ''http'', netloc = ''User@[::1]:80'', path = ''/A/p'', params = ''x'',
          query = ''q=1'', fragment = ''f''\<rparr>"
  "urlparse (cpython_3_12_3 (\<lambda>h. h = ''::1'')) ''HTTP://User@[::1]:80/A/p;x?q=1#f'' =
     Inr \<lparr>scheme = ''http'', netloc = ''User@[::1]:80'', path = ''/A/p'', params = ''x'',
          query = ''q=1'', fragment = ''f''\<rparr>"
  by code_simp+

lemma example_canonicalize:
  "canonicalize (cpython_3_11_10 (\<lambda>h. h = ''::1'')) ''HTTP://User@[::1]:80/A/p;x?q=1#f'' =
     Inr ''http://user@[::1]:80/A/p?q=1''"
  "canonicalize (cpython_3_12_3 (\<lambda>h. h = ''::1'')) ''HTTP://User@[::1]:80/A/p;x?q=1#f'' =
     Inr ''http://user@[::1]:80/A/p?q=1''"
  by code_simp+

lemma example_writes_authority: "writes_authority lib ''User@[::1]:80'' ''/A/p''"
  by (simp add: writes_authority_def)

text \<open>The theorem above at a URL with a bracketed host, params and a fragment, in the
  two revisions.\<close>

theorem canonicalize_idempotent_iff_no_params_witness:
  "ipv6_lower_closed (\<lambda>h. h = ''::1'') \<and>
   knows_http (cpython_3_11_10 (\<lambda>h. h = ''::1'')) \<and> knows_http (cpython_3_12_3 (\<lambda>h. h = ''::1'')) \<and>
   canonicalize (cpython_3_11_10 (\<lambda>h. h = ''::1'')) ''HTTP://User@[::1]:80/A/p;x?q=1#f'' =
     Inr ''http://user@[::1]:80/A/p?q=1'' \<and>
   canonicalize (cpython_3_12_3 (\<lambda>h. h = ''::1'')) ''HTTP://User@[::1]:80/A/p;x?q=1#f'' =
     Inr ''http://user@[::1]:80/A/p?q=1'' \<and>
   writes_authority (cpython_3_11_10 (\<lambda>h. h = ''::1'')) ''User@[::1]:80'' ''/A/p'' \<and>
   writes_authority (cpython_3_12_3 (\<lambda>h. h = ''::1'')) ''User@[::1]:80'' ''/A/p'' \<and>
   CHR '';'' \<notin> set (last_segment ''/A/p'') \<and>
   canonicalize (cpython_3_11_10 (\<lambda>h. h = ''::1'')) ''http://user@[::1]:80/A/p?q=1'' =
     Inr ''http://user@[::1]:80/A/p?q=1'' \<and>
   canonicalize (cpython_3_12_3 (\<lambda>h. h = ''::1'')) ''http://user@[::1]:80/A/p?q=1'' =
     Inr ''http://user@[::1]:80/A/p?q=1''"
proof -
  have ls: "CHR '';'' \<notin> set (last_segment ''/A/p'')" by code_simp
  have cl: "ipv6_lower_closed (is_ipv6 (cpython_3_11_10 (\<lambda>h. h = ''::1'')))"
    "ipv6_lower_closed (is_ipv6 (cpython_3_12_3 (\<lambda>h. h = ''::1'')))"
    by (simp_all only: is_ipv6_examples ipv6_lower_closed_example)
  have wa: "writes_authority lib
      (netloc \<lparr>scheme = ''http'', netloc = ''User@[::1]:80'', path = ''/A/p'', params = ''x'',
          query = ''q=1'', fragment = ''f''\<rparr>)
      (path \<lparr>scheme = ''http'', netloc = ''User@[::1]:80'', path = ''/A/p'', params = ''x'',
          query = ''q=1'', fragment = ''f''\<rparr>)" for lib
    using example_writes_authority[of lib] by simp
  from canonicalize_idempotent_iff_no_params[OF cl(1) knows_http_examples(1)
      example_canonicalize(1) example_urlparse(1) wa] ls
  have a: "canonicalize (cpython_3_11_10 (\<lambda>h. h = ''::1'')) ''http://user@[::1]:80/A/p?q=1'' =
     Inr ''http://user@[::1]:80/A/p?q=1''"
    by simp
  from canonicalize_idempotent_iff_no_params[OF cl(2) knows_http_examples(2)
      example_canonicalize(2) example_urlparse(2) wa] ls
  have b: "canonicalize (cpython_3_12_3 (\<lambda>h. h = ''::1'')) ''http://user@[::1]:80/A/p?q=1'' =
     Inr ''http://user@[::1]:80/A/p?q=1''"
    by simp
  show ?thesis
    using ipv6_lower_closed_example knows_http_examples example_canonicalize
      example_writes_authority ls a b
    by (intro conjI) blast+
qed

text \<open>
  C6, as stated, fails in both revisions. The input \<open>a/b\<close> has the path \<open>a/b\<close>, and
  \<open>canonicalize\<close> returns \<open>http:///a/b\<close>, whose path is \<open>/a/b\<close>. The input
  \<open>ws://h/a;b\<close> gives \<open>http://h/a;b\<close>, which has the params \<open>b\<close> and the path
  \<open>/a\<close>. With the \<open>urlunsplit\<close> of 3.12.3 the input \<open>http:////x\<close>, which has no
  netloc, gives \<open>http://x\<close>, which has the netloc \<open>x\<close> and no path.
\<close>

theorem canonicalize_returned_path_counterexample:
  "(case urlparse (cpython_3_11_10 (\<lambda>h. False)) ''a/b'' of Inl e \<Rightarrow> False
    | Inr P \<Rightarrow> path P = ''a/b'') \<and>
   canonicalize (cpython_3_11_10 (\<lambda>h. False)) ''a/b'' = Inr ''http:///a/b'' \<and>
   (case urlparse (cpython_3_11_10 (\<lambda>h. False)) ''http:///a/b'' of Inl e \<Rightarrow> False
    | Inr P \<Rightarrow> path P = ''/a/b'') \<and>
   canonicalize (cpython_3_11_10 (\<lambda>h. False)) ''ws://h/a;b'' = Inr ''http://h/a;b'' \<and>
   (case urlparse (cpython_3_11_10 (\<lambda>h. False)) ''http://h/a;b'' of Inl e \<Rightarrow> False
    | Inr P \<Rightarrow> path P = ''/a'' \<and> params P = ''b'') \<and>
   (case urlparse (cpython_3_12_3 (\<lambda>h. False)) ''a/b'' of Inl e \<Rightarrow> False
    | Inr P \<Rightarrow> path P = ''a/b'') \<and>
   canonicalize (cpython_3_12_3 (\<lambda>h. False)) ''a/b'' = Inr ''http:///a/b'' \<and>
   (case urlparse (cpython_3_12_3 (\<lambda>h. False)) ''http:///a/b'' of Inl e \<Rightarrow> False
    | Inr P \<Rightarrow> path P = ''/a/b'') \<and>
   canonicalize (cpython_3_12_3 (\<lambda>h. False)) ''ws://h/a;b'' = Inr ''http://h/a;b'' \<and>
   (case urlparse (cpython_3_12_3 (\<lambda>h. False)) ''http://h/a;b'' of Inl e \<Rightarrow> False
    | Inr P \<Rightarrow> path P = ''/a'' \<and> params P = ''b'') \<and>
   (case urlparse (cpython_3_12_3 (\<lambda>h. False)) ''http:////x'' of Inl e \<Rightarrow> False
    | Inr P \<Rightarrow> netloc P = [] \<and> path P = ''//x'') \<and>
   canonicalize (cpython_3_12_3 (\<lambda>h. False)) ''http:////x'' = Inr ''http://x'' \<and>
   (case urlparse (cpython_3_12_3 (\<lambda>h. False)) ''http://x'' of Inl e \<Rightarrow> False
    | Inr P \<Rightarrow> netloc P = ''x'' \<and> path P = [])"
  by code_simp

text \<open>
  C6, amended. For every input that \<open>urlparse\<close> accepts, \<open>canonicalize\<close> returns
  the string scheme \<open>:\<close> rest [\<open>?\<close> query], where the scheme is the lowercased
  input scheme when that is \<open>http\<close> or \<open>https\<close> and \<open>http\<close> otherwise, and the
  query is the input query. When \<open>urlunsplit\<close> writes the authority (the input netloc
  is not empty, or the input path does not begin with \<open>//\<close>, or the revision writes
  the authority before such a path), the rest is \<open>//\<close> netloc path, where the netloc
  is the lowercased input netloc and the path is \<open>/\<close> for an empty input path, the
  input path when it begins with \<open>/\<close> and \<open>/\<close> followed by the input path
  otherwise; parsed again, the returned URL then has this scheme, netloc and query and
  no fragment, and it has this path and no params when the input path has no \<open>;\<close>
  after its last \<open>/\<close>. When \<open>urlunsplit\<close> does not write the authority, the rest is
  the input path. This holds in every revision of \<open>urllib.parse\<close> described by the
  record, with \<open>http\<close> and \<open>https\<close> in its scheme lists.
\<close>

theorem canonicalize_components:
  assumes "ipv6_lower_closed (is_ipv6 lib)" and "knows_http lib" and "urlparse lib u = Inr P"
  shows "\<exists>c. canonicalize lib u = Inr c \<and>
           c = (if py_lower (scheme P) = ''http'' \<or> py_lower (scheme P) = ''https''
                then py_lower (scheme P) else ''http'') @ '':'' @
               (if writes_authority lib (netloc P) (path P)
                then ''//'' @ py_lower (netloc P) @ rooted (path P) else path P) @
               (if query P = [] then [] else CHR ''?'' # query P) \<and>
           (writes_authority lib (netloc P) (path P) \<longrightarrow>
              (\<exists>P'. urlparse lib c = Inr P' \<and>
                 scheme P' = (if py_lower (scheme P) = ''http'' \<or> py_lower (scheme P) = ''https''
                              then py_lower (scheme P) else ''http'') \<and>
                 netloc P' = py_lower (netloc P) \<and> query P' = query P \<and> fragment P' = [] \<and>
                 (CHR '';'' \<notin> set (last_segment (path P)) \<longrightarrow>
                    path P' = rooted (path P) \<and> params P' = [])))"
proof -
  note pr = urlparse_props[OF assms(3)]
  have "safe (py_lower (scheme P))" using pr(11) by (simp add: safe_lower)
  then have "py_lower (scheme P) \<noteq> ''http'' @ [CHR 0x0A]" "py_lower (scheme P) \<noteq> ''https'' @ [CHR 0x0A]"
    by (auto simp: unsafe_url_byte_def)
  then have cs: "canonical_scheme (scheme P) =
      (if py_lower (scheme P) = ''http'' \<or> py_lower (scheme P) = ''https''
       then py_lower (scheme P) else ''http'')"
    by (auto simp: canonical_scheme_def CANONICAL_SCHEME_RE_match_def)
  define c where "c = canonical_scheme (scheme P) @ '':'' @
              (if writes_authority lib (netloc P) (path P)
               then ''//'' @ py_lower (netloc P) @ rooted (path P) else path P) @
              (if query P = [] then [] else CHR ''?'' # query P)"
  have c: "canonicalize lib u = Inr c"
    unfolding c_def by (rule canonicalize_form[OF assms(3,2)])
  define pp where "pp = (if CHR '';'' \<in> set (rooted (path P)) then splitparams (rooted (path P))
                        else (rooted (path P), []))"
  define P' where "P' = \<lparr>scheme = canonical_scheme (scheme P), netloc = py_lower (netloc P),
                  path = fst pp, params = snd pp, query = query P, fragment = []\<rparr>"
  have P': "urlparse lib c = Inr P'" if "writes_authority lib (netloc P) (path P)"
    using urlparse_of_canonical[OF assms(1,2,3) c that] by (simp add: Let_def pp_def P'_def)
  have np: "CHR '';'' \<notin> set (last_segment (path P)) \<Longrightarrow> pp = (rooted (path P), [])"
    using splitparams_no_params[OF rooted_has_slash[of "path P"]]
    by (simp add: pp_def last_segment_rooted)
  have 1: "c = (if py_lower (scheme P) = ''http'' \<or> py_lower (scheme P) = ''https''
                then py_lower (scheme P) else ''http'') @ '':'' @
               (if writes_authority lib (netloc P) (path P)
                then ''//'' @ py_lower (netloc P) @ rooted (path P) else path P) @
               (if query P = [] then [] else CHR ''?'' # query P)"
    unfolding c_def cs by (rule refl)
  have 2: "scheme P' = (if py_lower (scheme P) = ''http'' \<or> py_lower (scheme P) = ''https''
                        then py_lower (scheme P) else ''http'')"
    "netloc P' = py_lower (netloc P)" "query P' = query P" "fragment P' = []"
    using cs by (simp_all add: P'_def)
  have 3: "CHR '';'' \<notin> set (last_segment (path P)) \<longrightarrow>
              path P' = rooted (path P) \<and> params P' = []"
    using np by (simp add: P'_def)
  show ?thesis
    using c 1 2 3 P' by blast
qed

text \<open>The theorem above at a URL with a bracketed host, params and a fragment, in the
  two revisions.\<close>

theorem canonicalize_components_witness:
  "ipv6_lower_closed (\<lambda>h. h = ''::1'') \<and>
   knows_http (cpython_3_11_10 (\<lambda>h. h = ''::1'')) \<and> knows_http (cpython_3_12_3 (\<lambda>h. h = ''::1'')) \<and>
   urlparse (cpython_3_11_10 (\<lambda>h. h = ''::1'')) ''HTTP://User@[::1]:80/A/p;x?q=1#f'' =
     Inr \<lparr>scheme = ''http'', netloc = ''User@[::1]:80'', path = ''/A/p'', params = ''x'',
          query = ''q=1'', fragment = ''f''\<rparr> \<and>
   urlparse (cpython_3_12_3 (\<lambda>h. h = ''::1'')) ''HTTP://User@[::1]:80/A/p;x?q=1#f'' =
     Inr \<lparr>scheme = ''http'', netloc = ''User@[::1]:80'', path = ''/A/p'', params = ''x'',
          query = ''q=1'', fragment = ''f''\<rparr> \<and>
   writes_authority (cpython_3_11_10 (\<lambda>h. h = ''::1'')) ''User@[::1]:80'' ''/A/p'' \<and>
   writes_authority (cpython_3_12_3 (\<lambda>h. h = ''::1'')) ''User@[::1]:80'' ''/A/p'' \<and>
   CHR '';'' \<notin> set (last_segment ''/A/p'') \<and>
   (\<exists>P'. canonicalize (cpython_3_11_10 (\<lambda>h. h = ''::1'')) ''HTTP://User@[::1]:80/A/p;x?q=1#f'' =
            Inr ''http://user@[::1]:80/A/p?q=1'' \<and>
         urlparse (cpython_3_11_10 (\<lambda>h. h = ''::1'')) ''http://user@[::1]:80/A/p?q=1'' = Inr P' \<and>
         scheme P' = ''http'' \<and> netloc P' = ''user@[::1]:80'' \<and> path P' = ''/A/p'' \<and>
         params P' = [] \<and> query P' = ''q=1'' \<and> fragment P' = []) \<and>
   (\<exists>P'. canonicalize (cpython_3_12_3 (\<lambda>h. h = ''::1'')) ''HTTP://User@[::1]:80/A/p;x?q=1#f'' =
            Inr ''http://user@[::1]:80/A/p?q=1'' \<and>
         urlparse (cpython_3_12_3 (\<lambda>h. h = ''::1'')) ''http://user@[::1]:80/A/p?q=1'' = Inr P' \<and>
         scheme P' = ''http'' \<and> netloc P' = ''user@[::1]:80'' \<and> path P' = ''/A/p'' \<and>
         params P' = [] \<and> query P' = ''q=1'' \<and> fragment P' = [])"
proof -
  have ls: "CHR '';'' \<notin> set (last_segment ''/A/p'')" by code_simp
  have lw: "py_lower ''http'' = ''http''" "py_lower ''User@[::1]:80'' = ''user@[::1]:80''"
    "rooted ''/A/p'' = ''/A/p''"
    by code_simp+
  have cl: "ipv6_lower_closed (is_ipv6 (cpython_3_11_10 (\<lambda>h. h = ''::1'')))"
    "ipv6_lower_closed (is_ipv6 (cpython_3_12_3 (\<lambda>h. h = ''::1'')))"
    by (simp_all only: is_ipv6_examples ipv6_lower_closed_example)
  have r: "\<exists>P'. canonicalize lib ''HTTP://User@[::1]:80/A/p;x?q=1#f'' =
            Inr ''http://user@[::1]:80/A/p?q=1'' \<and>
         urlparse lib ''http://user@[::1]:80/A/p?q=1'' = Inr P' \<and>
         scheme P' = ''http'' \<and> netloc P' = ''user@[::1]:80'' \<and> path P' = ''/A/p'' \<and>
         params P' = [] \<and> query P' = ''q=1'' \<and> fragment P' = []"
    if t: "\<exists>c. canonicalize lib ''HTTP://User@[::1]:80/A/p;x?q=1#f'' = Inr c \<and>
           c = ''http://user@[::1]:80/A/p?q=1'' \<and>
           (\<exists>P'. urlparse lib c = Inr P' \<and>
              scheme P' = ''http'' \<and> netloc P' = ''user@[::1]:80'' \<and> query P' = ''q=1'' \<and>
              fragment P' = [] \<and>
              (CHR '';'' \<notin> set (last_segment ''/A/p'') \<longrightarrow> path P' = ''/A/p'' \<and> params P' = []))"
    for lib
    using t ls by blast
  from canonicalize_components[OF cl(1) knows_http_examples(1) example_urlparse(1)]
  have a: "\<exists>c. canonicalize (cpython_3_11_10 (\<lambda>h. h = ''::1'')) ''HTTP://User@[::1]:80/A/p;x?q=1#f'' = Inr c \<and>
           c = ''http://user@[::1]:80/A/p?q=1'' \<and>
           (\<exists>P'. urlparse (cpython_3_11_10 (\<lambda>h. h = ''::1'')) c = Inr P' \<and>
              scheme P' = ''http'' \<and> netloc P' = ''user@[::1]:80'' \<and> query P' = ''q=1'' \<and>
              fragment P' = [] \<and>
              (CHR '';'' \<notin> set (last_segment ''/A/p'') \<longrightarrow> path P' = ''/A/p'' \<and> params P' = []))"
    by (simp del: py_lower_simps add: lw example_writes_authority)
  from canonicalize_components[OF cl(2) knows_http_examples(2) example_urlparse(2)]
  have b: "\<exists>c. canonicalize (cpython_3_12_3 (\<lambda>h. h = ''::1'')) ''HTTP://User@[::1]:80/A/p;x?q=1#f'' = Inr c \<and>
           c = ''http://user@[::1]:80/A/p?q=1'' \<and>
           (\<exists>P'. urlparse (cpython_3_12_3 (\<lambda>h. h = ''::1'')) c = Inr P' \<and>
              scheme P' = ''http'' \<and> netloc P' = ''user@[::1]:80'' \<and> query P' = ''q=1'' \<and>
              fragment P' = [] \<and>
              (CHR '';'' \<notin> set (last_segment ''/A/p'') \<longrightarrow> path P' = ''/A/p'' \<and> params P' = []))"
    by (simp del: py_lower_simps add: lw example_writes_authority)
  show ?thesis
    using ipv6_lower_closed_example knows_http_examples example_urlparse
      example_writes_authority ls r[OF a] r[OF b]
    by (intro conjI) blast+
qed

subsection \<open>The crawl manager\<close>

lemma puts_append [simp]: "puts (a @ b) = puts a @ puts b"
  by (induction a rule: puts.induct) auto
lemma gets_append [simp]: "gets (a @ b) = gets a @ gets b"
  by (induction a rule: gets.induct) auto
lemma visits_append [simp]: "visits (a @ b) = visits a @ visits b"
  by (induction a rule: visits.induct) auto
lemma emits_append [simp]: "emits (a @ b) = emits a @ emits b"
  by (induction a rule: emits.induct) auto

lemma put_entry_simps [simp]:
  "queue (put_entry e s) = queue s @ [e]"
  "enqueued (put_entry e s) = insert (fst e) (enqueued s)"
  "visited (put_entry e s) = visited s"
  "edges (put_entry e s) = edges s"
  "pages (put_entry e s) = pages s"
  "duplicate_map (put_entry e s) = duplicate_map s"
  "broken_links (put_entry e s) = broken_links s"
  "workers (put_entry e s) = workers s"
  "robots (put_entry e s) = robots s"
  "max_depth (put_entry e s) = max_depth s"
  "base_url (put_entry e s) = base_url s"
  "threads (put_entry e s) = threads s"
  "user_agent (put_entry e s) = user_agent s"
  by (simp_all add: put_entry_def)

lemma harvest_frame:
  "harvest ev url d links s = (r, evs, s') \<Longrightarrow>
     visited s' = visited s \<and> edges s' = edges s \<and> pages s' = pages s \<and>
     duplicate_map s' = duplicate_map s \<and> broken_links s' = broken_links s \<and>
     workers s' = workers s \<and> robots s' = robots s \<and> max_depth s' = max_depth s \<and>
     base_url s' = base_url s \<and> threads s' = threads s \<and> user_agent s' = user_agent s"
proof (induction links arbitrary: s r evs s')
  case Nil
  then show ?case by simp
next
  case (Cons link links)
  show ?case
    using Cons.prems Cons.IH
    by (fastforce split: sum.splits if_splits prod.splits)
qed

lemma harvest_events:
  "harvest ev url d links s = (r, evs, s') \<Longrightarrow>
     queue s' = queue s @ puts evs \<and> enqueued s' = enqueued s \<union> fst ` set (puts evs) \<and>
     gets evs = [] \<and> visits evs = [] \<and> emits evs = [] \<and>
     distinct (map fst (puts evs)) \<and>
     fst ` set (puts evs) \<inter> (enqueued s \<union> visited s) = {} \<and>
     (\<forall>e \<in> set (puts evs). \<exists>l \<in> set links. e = (l, d + 1, Some url))"
proof (induction links arbitrary: s r evs s')
  case Nil
  then show ?case by simp
next
  case (Cons link links)
  show ?case
  proof (cases "is_allowed_scheme (urllib ev) link")
    case (Inl e)
    with Cons.prems show ?thesis by auto
  next
    case (Inr allowed)
    show ?thesis
    proof (cases "allowed \<and> link \<notin> visited s \<and> link \<notin> enqueued s")
      case False
      with Inr Cons.prems have "harvest ev url d links s = (r, evs, s')"
        by (auto split: if_splits)
      from Cons.IH[OF this] show ?thesis by auto
    next
      case True
      show ?thesis
      proof (cases "is_same_domain (urllib ev) link (base_url s)")
        case (Inl e)
        with True Inr Cons.prems show ?thesis by auto
      next
        case same: (Inr same)
        show ?thesis
        proof (cases same)
          case False
          with same True Inr Cons.prems have "harvest ev url d links s = (r, evs, s')"
            by (auto split: if_splits)
          from Cons.IH[OF this] show ?thesis by auto
        next
          case T: True
          obtain r1 evs1 s1 where h: "harvest ev url d links (put_entry (link, d + 1, Some url) s) = (r1, evs1, s1)"
            by (cases "harvest ev url d links (put_entry (link, d + 1, Some url) s)") auto
          with T same True Inr Cons.prems
          have eq: "r = r1" "evs = Put (link, d + 1, Some url) # evs1" "s' = s1"
            by auto
          from Cons.IH[OF h] True show ?thesis unfolding eq
            by (auto simp: image_iff)
        qed
      qed
    qed
  qed
qed


lemma fetch_url: "fetch url outcome = Inr result \<Longrightarrow> fr_url result = url"
  by (auto simp: fetch_def split: http_outcome.splits)

lemma build_page_simps [simp]:
  "pd_url (build_page result parsed h) = fr_url result"
  "pd_content_hash (build_page result parsed h) = h"
  by (simp_all add: build_page_def Let_def)

lemma emit_page_props:
  assumes "emit_page ev s url result = (parsed, page, s3)"
  shows "pd_url page = fr_url result"
    and "pd_internal_links page = (case parsed of None \<Rightarrow> [] | Some p \<Rightarrow> pp_internal_links p)"
    and "\<exists>dm bl. s3 = s\<lparr>duplicate_map := dm, pages := pages s @ [page], broken_links := bl\<rparr> \<and>
            (dm = duplicate_map s \<or>
             (\<exists>h. pd_content_hash page = Some h \<and>
                  dm = AList.update h (dict_get (duplicate_map s) h [] @ [url]) (duplicate_map s)))"
proof -
  from assms show "pd_url page = fr_url result"
    by (auto simp: emit_page_def Let_def)
  from assms show "pd_internal_links page = (case parsed of None \<Rightarrow> [] | Some p \<Rightarrow> pp_internal_links p)"
    by (auto simp: emit_page_def Let_def build_page_def)
  define dm where "dm = duplicate_map s3"
  define bl where "bl = broken_links s3"
  have "s3 = s\<lparr>duplicate_map := dm, pages := pages s @ [page], broken_links := bl\<rparr>"
    using assms unfolding dm_def bl_def
    by (auto simp: emit_page_def Let_def split: if_splits)
  moreover have "dm = duplicate_map s \<or>
             (\<exists>h. pd_content_hash page = Some h \<and>
                  dm = AList.update h (dict_get (duplicate_map s) h [] @ [url]) (duplicate_map s))"
    using assms unfolding dm_def
    by (auto simp: emit_page_def Let_def split: if_splits)
  ultimately show "\<exists>dm bl. s3 = s\<lparr>duplicate_map := dm, pages := pages s @ [page], broken_links := bl\<rparr> \<and>
            (dm = duplicate_map s \<or>
             (\<exists>h. pd_content_hash page = Some h \<and>
                  dm = AList.update h (dict_get (duplicate_map s) h [] @ [url]) (duplicate_map s)))"
    by blast
qed

lemma after_fetch_cases:
  assumes "process_url_after_fetch ev s (url, d, src) outcome = (r, evs, s')"
  shows "(\<exists>err. fetch url outcome = Inl err \<and> r = Some err \<and> evs = [] \<and> s' = s) \<or>
         (\<exists>page dm bl s3.
            pd_url page = url \<and>
            s3 = s\<lparr>duplicate_map := dm, pages := pages s @ [page], broken_links := bl\<rparr> \<and>
            (dm = duplicate_map s \<or>
             (\<exists>h. pd_content_hash page = Some h \<and>
                  dm = AList.update h (dict_get (duplicate_map s) h [] @ [url]) (duplicate_map s))) \<and>
            ((evs = [Emit (url, d, src) page] \<and> s' = s3) \<or>
             (\<exists>evs1. harvest ev url d (pd_internal_links page) s3 = (r, evs1, s') \<and>
                     evs = Emit (url, d, src) page # evs1)))"
proof (cases "fetch url outcome")
  case (Inl err)
  with assms show ?thesis by (simp add: process_url_after_fetch_def)
next
  case (Inr result)
  obtain parsed page s3 where ep: "emit_page ev s url result = (parsed, page, s3)"
    by (cases "emit_page ev s url result") auto
  note props = emit_page_props[OF ep]
  have url: "pd_url page = url"
    using props(1) fetch_url[OF Inr] by simp
  have "(evs = [Emit (url, d, src) page] \<and> s' = s3) \<or>
        (\<exists>evs1. harvest ev url d (pd_internal_links page) s3 = (r, evs1, s') \<and>
                evs = Emit (url, d, src) page # evs1)"
    using assms props(2)
    by (auto simp: process_url_after_fetch_def Inr ep split: option.splits prod.splits)
  with url props(3) show ?thesis
    by blast
qed

lemma set_alist_update:
  "set (AList.update k v al) \<subseteq> insert (k, v) (set al)"
  by (induction al) auto

lemma dict_get_in:
  "x \<in> set (dict_get al k []) \<Longrightarrow> \<exists>v. (k, v) \<in> set al \<and> x \<in> set v"
  by (cases "map_of al k") (auto simp: dict_get_def dest: map_of_SomeD)

lemma dup_inv_after_emit:
  assumes "dup_inv s" "pd_url page = url"
    and "dm = duplicate_map s \<or>
         (\<exists>h. pd_content_hash page = Some h \<and>
              dm = AList.update h (dict_get (duplicate_map s) h [] @ [url]) (duplicate_map s))"
  shows "dup_inv (s\<lparr>duplicate_map := dm, pages := pages s @ [page], broken_links := bl\<rparr>)"
proof -
  have old: "\<And>h urls u. (h, urls) \<in> set (duplicate_map s) \<Longrightarrow> u \<in> set urls \<Longrightarrow>
        \<exists>p \<in> set (pages s). pd_url p = u \<and> pd_content_hash p = Some h"
    using assms(1) by (fastforce simp: dup_inv_def)
  show ?thesis
    using assms(3)
  proof
    assume "dm = duplicate_map s"
    then show ?thesis using old by (fastforce simp: dup_inv_def)
  next
    assume "\<exists>h. pd_content_hash page = Some h \<and>
              dm = AList.update h (dict_get (duplicate_map s) h [] @ [url]) (duplicate_map s)"
    then obtain h where h: "pd_content_hash page = Some h"
      and dm: "dm = AList.update h (dict_get (duplicate_map s) h [] @ [url]) (duplicate_map s)"
      by blast
    have "\<exists>p \<in> set (pages s @ [page]). pd_url p = u \<and> pd_content_hash p = Some k"
      if "(k, urls) \<in> set dm" "u \<in> set urls" for k urls u
    proof -
      from that(1) set_alist_update[of h _ "duplicate_map s"]
      have "(k, urls) = (h, dict_get (duplicate_map s) h [] @ [url]) \<or> (k, urls) \<in> set (duplicate_map s)"
        unfolding dm by blast
      then show ?thesis
      proof
        assume "(k, urls) \<in> set (duplicate_map s)"
        from old[OF this that(2)] show ?thesis by auto
      next
        assume eq: "(k, urls) = (h, dict_get (duplicate_map s) h [] @ [url])"
        show ?thesis
        proof (cases "u = url")
          case True
          with eq h assms(2) show ?thesis by auto
        next
          case False
          with eq that(2) have "u \<in> set (dict_get (duplicate_map s) h [])" by auto
          from dict_get_in[OF this] obtain v where "(h, v) \<in> set (duplicate_map s)" "u \<in> set v"
            by blast
          from old[OF this] eq show ?thesis by auto
        qed
      qed
    qed
    then show ?thesis by (fastforce simp: dup_inv_def)
  qed
qed


lemma emitted_state_simps:
  assumes "s3 = s\<lparr>duplicate_map := dm, pages := pages s @ [page], broken_links := bl\<rparr>"
  shows "visited s3 = visited s" "edges s3 = edges s" "workers s3 = workers s"
      "queue s3 = queue s" "enqueued s3 = enqueued s" "pages s3 = pages s @ [page]"
      "robots s3 = robots s" "max_depth s3 = max_depth s" "base_url s3 = base_url s"
      "threads s3 = threads s" "user_agent s3 = user_agent s"
  by (simp_all add: assms)

lemma after_harvest:
  assumes s3: "s3 = s\<lparr>duplicate_map := dm, pages := pages s @ [page], broken_links := bl\<rparr>"
    and hv: "harvest ev url d (pd_internal_links page) s3 = (r, evs1, s')"
    and evs: "evs = Emit (url, d, src) page # evs1"
    and e: "e = (url, d, src)"
    and d3: "dup_inv s \<Longrightarrow> dup_inv s3"
  shows "visited s' = visited s \<and> edges s' = edges s \<and> workers s' = workers s \<and>
    same_config s s' \<and> queue s' = queue s @ puts evs \<and>
    enqueued s' = enqueued s \<union> fst ` set (puts evs) \<and>
    gets evs = [] \<and> visits evs = [] \<and> distinct (map fst (puts evs)) \<and>
    fst ` set (puts evs) \<inter> (enqueued s \<union> visited s) = {} \<and>
    (\<exists>ps. pages s' = pages s @ ps) \<and>
    (dup_inv s \<longrightarrow> dup_inv s') \<and>
    (evs = [] \<or> (\<exists>page. emits evs = [(e, page)] \<and>
        (\<forall>p \<in> set (puts evs). \<exists>l \<in> set (pd_internal_links page).
            p = (l, fst (snd e) + 1, Some (fst e)))))"
proof -
  note f = harvest_frame[OF hv] and h = harvest_events[OF hv]
  note s3s = emitted_state_simps[OF s3]
  have 1: "visited s' = visited s" "edges s' = edges s" "workers s' = workers s"
    using f s3s by simp_all
  have 2: "same_config s s'" using f s3s by (simp add: same_config_def)
  have pe: "puts evs = puts evs1" "gets evs = gets evs1" "visits evs = visits evs1"
    "emits evs = (e, page) # emits evs1"
    by (simp_all add: evs e)
  have 3: "queue s' = queue s @ puts evs" "enqueued s' = enqueued s \<union> fst ` set (puts evs)"
    "gets evs = []" "visits evs = []" "distinct (map fst (puts evs))"
    "fst ` set (puts evs) \<inter> (enqueued s \<union> visited s) = {}"
    using h unfolding pe s3s by simp_all
  have 4: "\<exists>ps. pages s' = pages s @ ps" using f s3s by simp
  have "dup_inv s3 \<Longrightarrow> dup_inv s'" using f by (simp add: dup_inv_def)
  with d3 have 5: "dup_inv s \<longrightarrow> dup_inv s'" by blast
  have "emits evs = [(e, page)]" using h pe by simp
  moreover have "\<forall>p \<in> set (puts evs). \<exists>l \<in> set (pd_internal_links page).
            p = (l, fst (snd e) + 1, Some (fst e))"
    using h unfolding pe e by simp
  ultimately have 6: "evs = [] \<or> (\<exists>page. emits evs = [(e, page)] \<and>
        (\<forall>p \<in> set (puts evs). \<exists>l \<in> set (pd_internal_links page).
            p = (l, fst (snd e) + 1, Some (fst e))))" by blast
  show ?thesis
    using 1 2 3 4 5 6 by (intro conjI)
qed

lemma after_fetch_frame:
  assumes "process_url_after_fetch ev s e outcome = (r, evs, s')"
  shows "visited s' = visited s \<and> edges s' = edges s \<and> workers s' = workers s \<and>
    same_config s s' \<and> queue s' = queue s @ puts evs \<and>
    enqueued s' = enqueued s \<union> fst ` set (puts evs) \<and>
    gets evs = [] \<and> visits evs = [] \<and> distinct (map fst (puts evs)) \<and>
    fst ` set (puts evs) \<inter> (enqueued s \<union> visited s) = {} \<and>
    (\<exists>ps. pages s' = pages s @ ps) \<and>
    (dup_inv s \<longrightarrow> dup_inv s') \<and>
    (evs = [] \<or> (\<exists>page. emits evs = [(e, page)] \<and>
        (\<forall>p \<in> set (puts evs). \<exists>l \<in> set (pd_internal_links page).
            p = (l, fst (snd e) + 1, Some (fst e)))))"
proof -
  obtain url d src where e: "e = (url, d, src)" by (cases e) auto
  from after_fetch_cases[OF assms[unfolded e]]
  show ?thesis
  proof (elim disjE exE conjE)
    fix err
    assume "evs = []" "s' = s"
    then show ?thesis by (simp add: same_config_def)
  next
    fix page dm bl s3
    assume page: "pd_url page = url"
      and s3: "s3 = s\<lparr>duplicate_map := dm, pages := pages s @ [page], broken_links := bl\<rparr>"
      and dm: "dm = duplicate_map s"
      and evs: "evs = [Emit (url, d, src) page]" and s': "s' = s3"
    have "dup_inv s \<Longrightarrow> dup_inv s3"
      unfolding s3 by (rule dup_inv_after_emit[OF _ page]) (simp_all add: dm)
    then show ?thesis
      unfolding s' evs e using emitted_state_simps[OF s3] by (simp add: same_config_def)
  next
    fix page dm bl s3 h
    assume page: "pd_url page = url"
      and s3: "s3 = s\<lparr>duplicate_map := dm, pages := pages s @ [page], broken_links := bl\<rparr>"
      and dm: "pd_content_hash page = Some h"
         "dm = AList.update h (dict_get (duplicate_map s) h [] @ [url]) (duplicate_map s)"
      and evs: "evs = [Emit (url, d, src) page]" and s': "s' = s3"
    have "dup_inv s \<Longrightarrow> dup_inv s3"
      unfolding s3 by (rule dup_inv_after_emit[OF _ page]) (use dm in blast)+
    then show ?thesis
      unfolding s' evs e using emitted_state_simps[OF s3] by (simp add: same_config_def)
  next
    fix page dm bl s3 evs1
    assume page: "pd_url page = url"
      and s3: "s3 = s\<lparr>duplicate_map := dm, pages := pages s @ [page], broken_links := bl\<rparr>"
      and dm: "dm = duplicate_map s"
      and hv: "harvest ev url d (pd_internal_links page) s3 = (r, evs1, s')"
      and evs: "evs = Emit (url, d, src) page # evs1"
    have d3: "dup_inv s \<Longrightarrow> dup_inv s3"
      unfolding s3 by (rule dup_inv_after_emit[OF _ page]) (simp_all add: dm)
    show ?thesis
      by (rule after_harvest[OF s3 hv evs e d3])
  next
    fix page dm bl s3 evs1 h
    assume page: "pd_url page = url"
      and s3: "s3 = s\<lparr>duplicate_map := dm, pages := pages s @ [page], broken_links := bl\<rparr>"
      and dm: "pd_content_hash page = Some h"
         "dm = AList.update h (dict_get (duplicate_map s) h [] @ [url]) (duplicate_map s)"
      and hv: "harvest ev url d (pd_internal_links page) s3 = (r, evs1, s')"
      and evs: "evs = Emit (url, d, src) page # evs1"
    have d3: "dup_inv s \<Longrightarrow> dup_inv s3"
      unfolding s3 by (rule dup_inv_after_emit[OF _ page]) (use dm in blast)+
    show ?thesis
      by (rule after_harvest[OF s3 hv evs e d3])
  qed
qed


lemma before_fetch_cases:
  assumes "process_url_before_fetch ev s (url, d, src) = (cont, evs, s')"
  shows "(url \<in> visited s \<and> \<not> cont \<and> evs = [] \<and> s' = s) \<or>
         (url \<notin> visited s \<and> evs = [Visit url] \<and>
          ((\<not> cont \<and> s' = s\<lparr>visited := insert url (visited s)\<rparr> \<and>
            \<not> ((\<forall>r. robots s = Some r \<longrightarrow> allows ev r url) \<and> d \<le> max_depth s)) \<or>
           (cont \<and> (\<forall>r. robots s = Some r \<longrightarrow> allows ev r url) \<and> d \<le> max_depth s \<and>
            s' = s\<lparr>visited := insert url (visited s),
                    edges := (if truthy_str src then edges s @ [(the src, url)] else edges s)\<rparr>)))"
  using assms
  by (auto simp: process_url_before_fetch_def Let_def split: if_splits)

lemma before_fetch_frame:
  assumes "process_url_before_fetch ev s e = (cont, evs, s')"
  shows "queue s' = queue s \<and> enqueued s' = enqueued s \<and> pages s' = pages s \<and>
    duplicate_map s' = duplicate_map s \<and> workers s' = workers s \<and> same_config s s' \<and>
    puts evs = [] \<and> gets evs = [] \<and> emits evs = [] \<and>
    visited s' = visited s \<union> set (visits evs) \<and> distinct (visits evs) \<and>
    set (visits evs) \<inter> visited s = {} \<and> set (visits evs) \<subseteq> {fst e} \<and>
    (cont \<longrightarrow> fst (snd e) \<le> max_depth s) \<and>
    (\<exists>es. edges s' = edges s @ es) \<and>
    (fst e \<notin> visited s \<and> truthy_str (snd (snd e)) \<and>
       (\<forall>r. robots s = Some r \<longrightarrow> allows ev r (fst e)) \<and> fst (snd e) \<le> max_depth s \<longrightarrow>
       (the (snd (snd e)), fst e) \<in> set (edges s'))"
proof -
  obtain url d src where e: "e = (url, d, src)" by (cases e) auto
  from before_fetch_cases[OF assms[unfolded e]]
  show ?thesis
  proof (elim disjE conjE)
    assume "url \<in> visited s" "\<not> cont" "evs = []" "s' = s"
    then show ?thesis by (simp add: same_config_def e)
  next
    assume "url \<notin> visited s" "evs = [Visit url]" "\<not> cont"
      "s' = s\<lparr>visited := insert url (visited s)\<rparr>"
      "\<not> ((\<forall>r. robots s = Some r \<longrightarrow> allows ev r url) \<and> d \<le> max_depth s)"
    then show ?thesis by (auto simp add: same_config_def e)
  next
    assume "url \<notin> visited s" "evs = [Visit url]" "cont"
      "\<forall>r. robots s = Some r \<longrightarrow> allows ev r url" "d \<le> max_depth s"
      "s' = s\<lparr>visited := insert url (visited s),
                    edges := (if truthy_str src then edges s @ [(the src, url)] else edges s)\<rparr>"
    then show ?thesis by (simp add: same_config_def e)
  qed
qed


lemma nth_set_update: "x \<in> set (xs[i := y]) \<Longrightarrow> x = y \<or> x \<in> set xs"
  by (meson insertE set_update_subset_insert subsetD)

lemma depth_ok_empty [simp]: "puts tr = [] \<Longrightarrow> emits tr = [] \<Longrightarrow> depth_ok md tr"
  by (simp add: depth_ok_def)

lemma depth_ok_append:
  "depth_ok md a \<Longrightarrow> depth_ok md b \<Longrightarrow> depth_ok md (a @ b)"
  unfolding depth_ok_def by (simp add: ball_Un) blast

lemma fresh_puts_append:
  "fresh_puts s a s1 \<Longrightarrow> fresh_puts s1 b s2 \<Longrightarrow> fresh_puts s (a @ b) s2"
  unfolding fresh_puts_def by (simp add: image_Un) blast

lemma fresh_visits_append:
  "fresh_visits s a s1 \<Longrightarrow> fresh_visits s1 b s2 \<Longrightarrow> fresh_visits s (a @ b) s2"
  unfolding fresh_visits_def by simp blast

lemma same_config_trans: "same_config s s1 \<Longrightarrow> same_config s1 s2 \<Longrightarrow> same_config s s2"
  by (simp add: same_config_def)

lemma edges_recorded_append:
  assumes "edges_recorded ev s a s1" "edges_recorded ev s1 b s2" "same_config s s1"
  shows "edges_recorded ev s (a @ b) s2"
proof -
  from assms(1) obtain es1 where 1: "edges s1 = edges s @ es1" by (auto simp: edges_recorded_def)
  from assms(2) obtain es2 where 2: "edges s2 = edges s1 @ es2" by (auto simp: edges_recorded_def)
  have cfg: "robots s1 = robots s" "max_depth s1 = max_depth s"
    using assms(3) by (simp_all add: same_config_def)
  have a: "\<And>url d source. (url, d, source) \<in> set (gets a) \<Longrightarrow> truthy_str source \<Longrightarrow>
      (\<forall>r. robots s = Some r \<longrightarrow> allows ev r url) \<Longrightarrow> d \<le> max_depth s \<Longrightarrow>
      (the source, url) \<in> set (edges s2)"
    using assms(1) unfolding edges_recorded_def 2 by fastforce
  have b: "\<And>url d source. (url, d, source) \<in> set (gets b) \<Longrightarrow> truthy_str source \<Longrightarrow>
      (\<forall>r. robots s = Some r \<longrightarrow> allows ev r url) \<Longrightarrow> d \<le> max_depth s \<Longrightarrow>
      (the source, url) \<in> set (edges s2)"
    using assms(2) unfolding edges_recorded_def cfg by fastforce
  have "\<exists>es. edges s2 = edges s @ es" using 1 2 by simp
  with a b show ?thesis
    unfolding edges_recorded_def by auto
qed


lemma workers_update_invs [simp]:
  "frontier_inv (s\<lparr>workers := ws\<rparr>) = frontier_inv s"
  "dup_inv (s\<lparr>workers := ws\<rparr>) = dup_inv s"
  "same_config s (s'\<lparr>workers := ws\<rparr>) = same_config s s'"
  "fresh_puts s tr (s'\<lparr>workers := ws\<rparr>) = fresh_puts s tr s'"
  "fresh_visits s tr (s'\<lparr>workers := ws\<rparr>) = fresh_visits s tr s'"
  "edges_recorded ev s tr (s'\<lparr>workers := ws\<rparr>) = edges_recorded ev s tr s'"
  by (simp_all add: frontier_inv_def dup_inv_def same_config_def fresh_puts_def
      fresh_visits_def edges_recorded_def)

lemma step_ok_refl: "crawl_inv s \<Longrightarrow> step_ok ev s [] s"
  by (simp add: step_ok_def same_config_def fresh_puts_def fresh_visits_def
      edges_recorded_def)

lemma step_ok_trans:
  assumes "step_ok ev s a s1" "step_ok ev s1 b s2"
  shows "step_ok ev s (a @ b) s2"
proof -
  have cfg: "same_config s s1" using assms(1) by (simp add: step_ok_def)
  then have md: "max_depth s1 = max_depth s" by (simp add: same_config_def)
  have "crawl_inv s2" using assms(2) by (simp add: step_ok_def)
  moreover have "same_config s s2"
    using assms by (auto simp: step_ok_def intro: same_config_trans)
  moreover have "fresh_puts s (a @ b) s2"
    using assms by (auto simp: step_ok_def intro: fresh_puts_append)
  moreover have "fresh_visits s (a @ b) s2"
    using assms by (auto simp: step_ok_def intro: fresh_visits_append)
  moreover have "depth_ok (max_depth s) (a @ b)"
    using assms md by (auto simp: step_ok_def intro: depth_ok_append)
  moreover have "edges_recorded ev s (a @ b) s2"
    using assms cfg by (auto simp: step_ok_def intro: edges_recorded_append)
  moreover have "\<exists>ps. pages s2 = pages s @ ps"
    using assms by (auto simp: step_ok_def)
  ultimately show ?thesis by (simp add: step_ok_def)
qed


lemma take_ok:
  assumes inv: "crawl_inv s" and q: "queue s = e # q"
    and bf: "process_url_before_fetch ev (s\<lparr>queue := q\<rparr>) e = (cont, evs1, s1)"
    and s': "s' = (if cont then s1\<lparr>workers := (workers s1)[w := Fetching e]\<rparr> else s1)"
  shows "step_ok ev s (Get e # evs1) s'"
proof -
  note f0 = before_fetch_frame[OF bf]
  have f: "queue s1 = q" "enqueued s1 = enqueued s" "pages s1 = pages s"
    "duplicate_map s1 = duplicate_map s" "workers s1 = workers s"
    "puts evs1 = []" "gets evs1 = []" "emits evs1 = []"
    "visited s1 = visited s \<union> set (visits evs1)" "distinct (visits evs1)"
    "set (visits evs1) \<inter> visited s = {}" "set (visits evs1) \<subseteq> {fst e}"
    "cont \<longrightarrow> fst (snd e) \<le> max_depth s"
    "\<exists>es. edges s1 = edges s @ es"
    using f0 by simp_all
  have cfg: "same_config s s1" using f0 by (simp add: same_config_def)
  have edge: "fst e \<notin> visited s \<and> truthy_str (snd (snd e)) \<and>
       (\<forall>r. robots s = Some r \<longrightarrow> allows ev r (fst e)) \<and> fst (snd e) \<le> max_depth s \<longrightarrow>
       (the (snd (snd e)), fst e) \<in> set (edges s1)"
    using f0 by simp
  define Q where "Q = fst ` set q"
  from inv have fi: "distinct (map fst q)" "fst e \<notin> Q" "fst e \<in> enqueued s"
    "Q \<subseteq> enqueued s"
    "visited s \<inter> Q = {}" "fst e \<notin> visited s" "visited s \<subseteq> enqueued s"
    by (auto simp: crawl_inv_def frontier_inv_def q Q_def)
  have "visited s1 \<inter> Q = {}"
    using f(9,12) fi(2,5) by blast
  moreover have "visited s1 \<subseteq> enqueued s1"
    using f(2,9,12) fi(3,7) by blast
  ultimately have "frontier_inv s1"
    unfolding frontier_inv_def using f(1,2) fi(1,4) by (simp add: Q_def)
  then have 1: "frontier_inv s'" by (simp add: s')
  have md: "max_depth s1 = max_depth s" using cfg by (simp add: same_config_def)
  have fs: "fetching_inv s" using inv by (simp add: crawl_inv_def)
  have 2: "fetching_inv s'"
  proof (cases cont)
    case False
    then show ?thesis using fs by (simp add: s' fetching_inv_def f(5) md)
  next
    case True
    with f(13) have "fst (snd e) \<le> max_depth s" by simp
    then show ?thesis
      using fs True unfolding fetching_inv_def s' by (auto simp: f(5) md dest!: nth_set_update)
  qed
  have "dup_inv s" using inv by (simp add: crawl_inv_def)
  then have "dup_inv s1" using f(3,4) by (simp add: dup_inv_def)
  then have 3: "dup_inv s'" by (simp add: s')
  have 4: "same_config s s'" using cfg by (simp add: s')
  have 5: "fresh_puts s (Get e # evs1) s'" using f(2,6) by (simp add: fresh_puts_def s')
  have 6: "fresh_visits s (Get e # evs1) s'" using f(9,10,11) by (simp add: fresh_visits_def s')
  have 7: "depth_ok (max_depth s) (Get e # evs1)" using f(6,8) by simp
  have "edges_recorded ev s (Get e # evs1) s1"
    unfolding edges_recorded_def using f(7,14) edge fi(6) by (cases e) auto
  then have 8: "edges_recorded ev s (Get e # evs1) s'" by (simp add: s')
  have 9: "\<exists>ps. pages s' = pages s @ ps" using f(3) by (simp add: s')
  show ?thesis
    unfolding step_ok_def crawl_inv_def by (intro conjI 1 2 3 4 5 6 7 8 9)
qed




lemma done_ok:
  assumes inv: "crawl_inv s" and w: "w < length (workers s)" "workers s ! w = Fetching e"
    and af: "process_url_after_fetch ev s e outcome = (r, evs, s1)"
    and s': "s' = s1\<lparr>workers := (workers s1)[w := (case r of None \<Rightarrow> Waiting | Some err \<Rightarrow> Failed err)]\<rparr>"
  shows "step_ok ev s evs s'"
proof -
  note f = after_fetch_frame[OF af]
  define Q where "Q = fst ` set (queue s)"
  define P where "P = fst ` set (puts evs)"
  from inv have fi: "distinct (map fst (queue s))" "Q \<subseteq> enqueued s"
    "visited s \<inter> Q = {}" "visited s \<subseteq> enqueued s"
    by (auto simp: crawl_inv_def frontier_inv_def Q_def)
  have "Fetching e \<in> set (workers s)" using w by (metis nth_mem)
  with inv have de: "fst (snd e) \<le> max_depth s"
    unfolding crawl_inv_def fetching_inv_def by blast
  have g: "visited s1 = visited s" "queue s1 = queue s @ puts evs"
    "enqueued s1 = enqueued s \<union> P" "distinct (map fst (puts evs))"
    "P \<inter> (enqueued s \<union> visited s) = {}"
    using f by (simp_all add: P_def)
  have qs: "fst ` set (queue s1) = Q \<union> P"
    by (simp add: g(2) image_Un Q_def P_def)
  have "Q \<inter> P = {}" using fi(2) g(5) by blast
  then have "distinct (map fst (queue s1))"
    unfolding g(2) using fi(1) g(4) by (simp add: Q_def P_def)
  moreover have "fst ` set (queue s1) \<subseteq> enqueued s1"
    unfolding qs g(3) using fi(2) by blast
  moreover have "visited s1 \<inter> fst ` set (queue s1) = {}"
    unfolding qs g(1) using fi(3) g(5) by blast
  moreover have "visited s1 \<subseteq> enqueued s1"
    unfolding g(1,3) using fi(4) by blast
  ultimately have "frontier_inv s1"
    unfolding frontier_inv_def by simp
  then have 1: "frontier_inv s'" by (simp add: s')
  have w1: "workers s1 = workers s" "max_depth s1 = max_depth s"
    using f by (simp_all add: same_config_def)
  have "fetching_inv s" using inv by (simp add: crawl_inv_def)
  then have 2: "fetching_inv s'"
    unfolding fetching_inv_def s'
    by (auto simp: w1 dest!: nth_set_update split: option.splits)
  have "dup_inv s" using inv by (simp add: crawl_inv_def)
  then have "dup_inv s1" using f by simp
  then have 3: "dup_inv s'" by (simp add: s')
  have 4: "same_config s s'" using f by (simp add: s')
  have "P \<inter> enqueued s = {}" using g(5) by blast
  then have 5: "fresh_puts s evs s'" using g(3,4) unfolding fresh_puts_def s' by (simp add: P_def)
  have 6: "fresh_visits s evs s'" using f by (simp add: fresh_visits_def s')
  have 7: "depth_ok (max_depth s) evs"
  proof -
    from f have "evs = [] \<or> (\<exists>page. emits evs = [(e, page)] \<and>
        (\<forall>p \<in> set (puts evs). \<exists>l \<in> set (pd_internal_links page).
            p = (l, fst (snd e) + 1, Some (fst e))))" by blast
    then show ?thesis
    proof
      assume "evs = []" then show ?thesis by simp
    next
      assume "\<exists>page. emits evs = [(e, page)] \<and>
        (\<forall>p \<in> set (puts evs). \<exists>l \<in> set (pd_internal_links page).
            p = (l, fst (snd e) + 1, Some (fst e)))"
      then obtain page where em: "emits evs = [(e, page)]"
        and pu: "\<forall>p \<in> set (puts evs). \<exists>l \<in> set (pd_internal_links page).
            p = (l, fst (snd e) + 1, Some (fst e))" by blast
      obtain u d s0 where e: "e = (u, d, s0)" by (cases e) auto
      have "\<forall>(l, d', src) \<in> set (puts evs). src = Some u \<and> d' = d + 1 \<and> l \<in> set (pd_internal_links page)"
        using pu unfolding e by fastforce
      then show ?thesis
        unfolding depth_ok_def em e using de[unfolded e] by fastforce
    qed
  qed
  have 8: "edges_recorded ev s evs s'" using f by (simp add: edges_recorded_def s')
  have 9: "\<exists>ps. pages s' = pages s @ ps" using f by (simp add: s')
  show ?thesis
    unfolding step_ok_def crawl_inv_def by (intro conjI 1 2 3 4 5 6 7 8 9)
qed


lemma step_step_ok:
  assumes "step ev a s = (evs, s')" "crawl_inv s"
  shows "step_ok ev s evs s'"
proof (cases a)
  case (Take w)
  show ?thesis
  proof (cases "w < length (workers s) \<and> workers s ! w = Waiting \<and> queue s \<noteq> []")
    case False
    with assms Take have "evs = []" "s' = s" by (auto simp: step_def)
    then show ?thesis using step_ok_refl[OF assms(2)] by simp
  next
    case True
    then obtain e q where q: "queue s = e # q" by (cases "queue s") auto
    obtain cont evs1 s1 where bf: "process_url_before_fetch ev (s\<lparr>queue := q\<rparr>) e = (cont, evs1, s1)"
      by (cases "process_url_before_fetch ev (s\<lparr>queue := q\<rparr>) e") auto
    from assms(1) Take True q bf
    have "evs = Get e # evs1" "s' = (if cont then s1\<lparr>workers := (workers s1)[w := Fetching e]\<rparr> else s1)"
      by (auto simp: step_def)
    with take_ok[OF assms(2) q bf] show ?thesis by simp
  qed
next
  case (Done w outcome)
  show ?thesis
  proof (cases "w < length (workers s) \<and> (\<exists>e. workers s ! w = Fetching e)")
    case False
    with assms Done have "evs = []" "s' = s" by (auto simp: step_def split: worker.splits)
    then show ?thesis using step_ok_refl[OF assms(2)] by simp
  next
    case True
    then obtain e where w: "w < length (workers s)" "workers s ! w = Fetching e" by blast
    obtain r evs1 s1 where af: "process_url_after_fetch ev s e outcome = (r, evs1, s1)"
      by (cases "process_url_after_fetch ev s e outcome") auto
    from assms(1) Done w af
    have "evs = evs1" "s' = s1\<lparr>workers := (workers s1)[w := (case r of None \<Rightarrow> Waiting | Some err \<Rightarrow> Failed err)]\<rparr>"
      by (auto simp: step_def)
    with done_ok[OF assms(2) w af] show ?thesis by simp
  qed
qed

lemma run_step_ok:
  "run ev sched s = (evs, s') \<Longrightarrow> crawl_inv s \<Longrightarrow> step_ok ev s evs s'"
proof (induction sched arbitrary: s evs s')
  case Nil
  then show ?case using step_ok_refl by simp
next
  case (Cons a as)
  obtain evs1 s1 where st: "step ev a s = (evs1, s1)" by (cases "step ev a s") auto
  obtain evs2 s2 where rn: "run ev as s1 = (evs2, s2)" by (cases "run ev as s1") auto
  from Cons.prems st rn have eq: "evs = evs1 @ evs2" "s' = s2" by auto
  from step_step_ok[OF st Cons.prems(2)] have 1: "step_ok ev s evs1 s1" .
  then have "crawl_inv s1" by (simp add: step_ok_def)
  from Cons.IH[OF rn this] have 2: "step_ok ev s1 evs2 s2" .
  from step_ok_trans[OF 1 2] show ?case by (simp add: eq)
qed


lemma init_initial: "CrawlManager_init ev base md th ua = Inr s0 \<Longrightarrow> initial s0"
  by (auto simp: CrawlManager_init_def initial_def split: sum.splits if_splits)

lemma seed_urls_props:
  "seed_urls ev urls s = Inr (evs, s') \<Longrightarrow>
     queue s' = queue s @ puts evs \<and> enqueued s' = enqueued s \<union> fst ` set (puts evs) \<and>
     distinct (map fst (puts evs)) \<and> fst ` set (puts evs) \<inter> enqueued s = {} \<and>
     gets evs = [] \<and> visits evs = [] \<and> emits evs = [] \<and>
     (\<forall>p \<in> set (puts evs). snd p = (0, None)) \<and>
     visited s' = visited s \<and> edges s' = edges s \<and> pages s' = pages s \<and>
     duplicate_map s' = duplicate_map s \<and> workers s' = workers s \<and> same_config s s'"
proof (induction urls arbitrary: s evs s')
  case Nil
  then show ?case by (simp add: same_config_def)
next
  case (Cons url urls)
  from Cons.prems obtain same where sd: "is_same_domain (urllib ev) url (base_url s) = Inr same"
    by (cases "is_same_domain (urllib ev) url (base_url s)") auto
  show ?case
  proof (cases "same \<and> url \<notin> enqueued s")
    case False
    with Cons.prems sd have "seed_urls ev urls s = Inr (evs, s')" by auto
    from Cons.IH[OF this] show ?thesis .
  next
    case True
    with Cons.prems sd obtain evs1 where
      r: "seed_urls ev urls (put_entry (url, 0, None) s) = Inr (evs1, s')"
      and evs: "evs = Put (url, 0, None) # evs1"
      by (auto split: sum.splits)
    from Cons.IH[OF r] True show ?thesis
      unfolding evs by (auto simp: same_config_def)
  qed
qed

lemma prepare_seed_urls_props:
  assumes "prepare_seed_urls ev s ro so = Inr (evs, s')" "initial s"
  shows "queue s' = puts evs \<and> enqueued s' = fst ` set (puts evs) \<and>
     distinct (map fst (puts evs)) \<and>
     gets evs = [] \<and> visits evs = [] \<and> emits evs = [] \<and>
     (\<forall>p \<in> set (puts evs). snd p = (0, None)) \<and>
     visited s' = {} \<and> edges s' = [] \<and> pages s' = [] \<and>
     duplicate_map s' = [] \<and> workers s' = [] \<and>
     max_depth s' = max_depth s \<and> base_url s' = base_url s \<and> threads s' = threads s"
proof -
  let ?s1 = "put_entry (base_url s, 0, None) s"
  from assms(1) obtain rr where
    s2: "(evs = [Put (base_url s, 0, None)] \<and> s' = ?s1\<lparr>robots := Some rr\<rparr>) \<or>
         (\<exists>urls evs1. seed_urls ev urls (?s1\<lparr>robots := Some rr\<rparr>) = Inr (evs1, s') \<and>
            evs = Put (base_url s, 0, None) # evs1)"
    unfolding prepare_seed_urls_def Let_def
    by (auto split: sum.splits if_splits prod.splits)
  let ?s2 = "?s1\<lparr>robots := Some rr\<rparr>"
  have i: "queue ?s2 = [(base_url s, 0, None)]" "enqueued ?s2 = {base_url s}"
    "visited ?s2 = {}" "edges ?s2 = []" "pages ?s2 = []" "duplicate_map ?s2 = []"
    "workers ?s2 = []" "max_depth ?s2 = max_depth s" "base_url ?s2 = base_url s"
    "threads ?s2 = threads s"
    using assms(2) by (simp_all add: initial_def)
  from s2 show ?thesis
  proof (elim disjE exE conjE)
    assume "evs = [Put (base_url s, 0, None)]" "s' = ?s2"
    then show ?thesis using i by simp
  next
    fix urls evs1
    assume r: "seed_urls ev urls ?s2 = Inr (evs1, s')" and evs: "evs = Put (base_url s, 0, None) # evs1"
    note p = seed_urls_props[OF r, unfolded i]
    show ?thesis unfolding evs using p by (auto simp: same_config_def)
  qed
qed

lemma initial_seeded_inv:
  assumes "queue s' = puts evs" "enqueued s' = fst ` set (puts evs)"
     "distinct (map fst (puts evs))" "visited s' = {}" "pages s' = []" "duplicate_map s' = []"
  shows "crawl_inv (s'\<lparr>workers := replicate n Waiting\<rparr>)"
  using assms
  by (simp add: crawl_inv_def frontier_inv_def fetching_inv_def dup_inv_def)


lemma crawl_trace_props:
  assumes "initial s0" "crawl_trace ev s0 ro so sched = Inr (tr, s')"
  shows "crawl_inv s' \<and> distinct (map fst (puts tr)) \<and> enqueued s' = fst ` set (puts tr) \<and>
     distinct (visits tr) \<and> visited s' = set (visits tr) \<and> depth_ok (max_depth s0) tr \<and>
     max_depth s' = max_depth s0 \<and>
     (\<forall>(url, d, source) \<in> set (gets tr).
         truthy_str source \<and> (\<forall>r. robots s' = Some r \<longrightarrow> allows ev r url) \<and> d \<le> max_depth s'
         \<longrightarrow> (the source, url) \<in> set (edges s'))"
proof -
  from assms(2) obtain evs0 s1 evs where
    seed: "prepare_seed_urls ev s0 ro so = Inr (evs0, s1)"
    and rn: "run ev sched (s1\<lparr>workers := replicate (nat (threads s1)) Waiting\<rparr>) = (evs, s')"
    and tr: "tr = evs0 @ evs"
    by (auto simp: crawl_trace_def split: sum.splits prod.splits)
  let ?s1 = "s1\<lparr>workers := replicate (nat (threads s1)) Waiting\<rparr>"
  note p0 = prepare_seed_urls_props[OF seed assms(1)]
  have p: "queue s1 = puts evs0" "enqueued s1 = fst ` set (puts evs0)"
     "distinct (map fst (puts evs0))" "gets evs0 = []" "visits evs0 = []" "emits evs0 = []"
     "\<forall>p \<in> set (puts evs0). snd p = (0, None)"
     "visited s1 = {}" "pages s1 = []" "duplicate_map s1 = []" "max_depth s1 = max_depth s0"
    using p0 by simp_all
  have inv1: "crawl_inv ?s1"
    by (rule initial_seeded_inv[OF p(1,2,3,8,9,10)])
  from run_step_ok[OF rn inv1] have ok: "step_ok ev ?s1 evs s'" .
  define P0 where "P0 = fst ` set (puts evs0)"
  define P where "P = fst ` set (puts evs)"
  have fp: "enqueued s' = P0 \<union> P" "distinct (map fst (puts evs))" "P \<inter> P0 = {}"
    using ok by (simp_all add: step_ok_def fresh_puts_def p(2) P0_def P_def)
  have fv: "visited s' = set (visits evs)" "distinct (visits evs)"
    using ok by (simp_all add: step_ok_def fresh_visits_def p(8))
  have cfg: "robots s' = robots s1" "max_depth s' = max_depth s0"
    using ok by (simp_all add: step_ok_def same_config_def p(11))
  have 1: "crawl_inv s'" using ok by (simp add: step_ok_def)
  have "P0 \<inter> P = {}" using fp(3) by blast
  then have 2: "distinct (map fst (puts tr))"
    unfolding tr using p(3) fp(2) by (simp add: P0_def P_def)
  have 3: "enqueued s' = fst ` set (puts tr)"
    unfolding tr fp(1) by (simp add: image_Un P0_def P_def)
  have 4: "distinct (visits tr)" "visited s' = set (visits tr)"
    unfolding tr using fv p(5) by simp_all
  have "depth_ok (max_depth s0) evs0"
    unfolding depth_ok_def using p(6,7) by fastforce
  moreover have "depth_ok (max_depth s0) evs"
    using ok by (simp add: step_ok_def p(11))
  ultimately have 5: "depth_ok (max_depth s0) tr"
    unfolding tr by (rule depth_ok_append)
  have "edges_recorded ev ?s1 evs s'" using ok by (simp add: step_ok_def)
  then have 6: "\<forall>(url, d, source) \<in> set (gets tr).
         truthy_str source \<and> (\<forall>r. robots s' = Some r \<longrightarrow> allows ev r url) \<and> d \<le> max_depth s'
         \<longrightarrow> (the source, url) \<in> set (edges s')"
    unfolding tr edges_recorded_def cfg by (simp add: p(4,11))
  show ?thesis
    by (intro conjI 1 2 3 4 5 6 cfg(2))
qed

lemma example_init:
  "CrawlManager_init example_env ''http://example.com/'' 1 1 ''sfrog'' = Inr example_manager"
proof -
  have "canonicalize (cpython_3_11_10 (\<lambda>h. False)) ''http://example.com/'' = Inr ''http://example.com/''"
    by code_simp
  then show ?thesis
    by (simp add: CrawlManager_init_def example_env_def example_manager_def)
qed

lemma example_trace:
  "(case crawl_trace example_env example_manager (TimedOut 0) (TimedOut 0) example_schedule of
      Inl e \<Rightarrow> False
    | Inr (tr, s') \<Rightarrow>
        puts tr = [(''http://example.com/'', 0, None),
                   (''http://example.com/a'', 1, Some ''http://example.com/''),
                   (''http://example.com/c'', 1, Some ''http://example.com/''),
                   (''http://example.com/b'', 2, Some ''http://example.com/a'')] \<and>
        gets tr = [(''http://example.com/'', 0, None),
                   (''http://example.com/a'', 1, Some ''http://example.com/''),
                   (''http://example.com/c'', 1, Some ''http://example.com/''),
                   (''http://example.com/b'', 2, Some ''http://example.com/a'')] \<and>
        visits tr = [''http://example.com/'', ''http://example.com/a'',
                     ''http://example.com/c'', ''http://example.com/b''] \<and>
        map fst (emits tr) = [(''http://example.com/'', 0, None),
                   (''http://example.com/a'', 1, Some ''http://example.com/''),
                   (''http://example.com/c'', 1, Some ''http://example.com/'')] \<and>
        edges s' = [(''http://example.com/'', ''http://example.com/a''),
                    (''http://example.com/'', ''http://example.com/c'')] \<and>
        max_depth s' = 1 \<and> map_option rr_user_agent (robots s') = Some ''sfrog'' \<and>
        drained s')"
  by code_simp


lemma edge_of_config: "same_config s s' \<Longrightarrow> edge_of ev s' e = edge_of ev s e"
  by (simp add: edge_of_def robots_allows_def same_config_def)

lemma robots_allows_iff:
  "robots_allows ev s url = (\<forall>r. robots s = Some r \<longrightarrow> allows ev r url)"
  by (simp add: robots_allows_def split: option.splits)

lemma step_edges:
  assumes "step ev a s = (evs, s')" "crawl_inv s"
  shows "edges s' = edges s @ concat (map (edge_of ev s) (gets evs)) \<and>
         map fst (gets evs) = visits evs"
proof (cases a)
  case (Take w)
  show ?thesis
  proof (cases "w < length (workers s) \<and> workers s ! w = Waiting \<and> queue s \<noteq> []")
    case False
    with assms Take have "evs = []" "s' = s" by (auto simp: step_def)
    then show ?thesis by simp
  next
    case True
    then obtain e q where q: "queue s = e # q" by (cases "queue s") auto
    obtain url d src where e: "e = (url, d, src)" by (cases e) auto
    obtain cont evs1 s1 where bf: "process_url_before_fetch ev (s\<lparr>queue := q\<rparr>) (url, d, src) = (cont, evs1, s1)"
      by (cases "process_url_before_fetch ev (s\<lparr>queue := q\<rparr>) (url, d, src)") auto
    from assms(1) Take True q bf e
    have eq: "evs = Get e # evs1" "s' = (if cont then s1\<lparr>workers := (workers s1)[w := Fetching e]\<rparr> else s1)"
      by (auto simp: step_def)
    from assms(2) have nv: "url \<notin> visited s"
      by (auto simp: crawl_inv_def frontier_inv_def q e)
    have ed: "edges s' = edges s1" by (simp add: eq)
    from before_fetch_cases[OF bf] nv
    have "evs1 = [Visit url] \<and> edges s1 = edges s @ edge_of ev s e"
      by (auto simp: edge_of_def e robots_allows_iff)
    then show ?thesis
      unfolding ed eq by (simp add: e)
  qed
next
  case (Done w outcome)
  show ?thesis
  proof (cases "w < length (workers s) \<and> (\<exists>e. workers s ! w = Fetching e)")
    case False
    with assms Done have "evs = []" "s' = s" by (auto simp: step_def split: worker.splits)
    then show ?thesis by simp
  next
    case True
    then obtain e where w: "w < length (workers s)" "workers s ! w = Fetching e" by blast
    obtain r evs1 s1 where af: "process_url_after_fetch ev s e outcome = (r, evs1, s1)"
      by (cases "process_url_after_fetch ev s e outcome") auto
    from assms(1) Done w af
    have eq: "evs = evs1" "s' = s1\<lparr>workers := (workers s1)[w := (case r of None \<Rightarrow> Waiting | Some err \<Rightarrow> Failed err)]\<rparr>"
      by (auto simp: step_def)
    from after_fetch_frame[OF af] have "edges s1 = edges s" "gets evs1 = []" "visits evs1 = []"
      by simp_all
    then show ?thesis by (simp add: eq)
  qed
qed

lemma run_edges:
  "run ev sched s = (evs, s') \<Longrightarrow> crawl_inv s \<Longrightarrow>
     edges s' = edges s @ concat (map (edge_of ev s) (gets evs)) \<and>
     map fst (gets evs) = visits evs"
proof (induction sched arbitrary: s evs s')
  case Nil
  then show ?case by simp
next
  case (Cons a as)
  obtain evs1 s1 where st: "step ev a s = (evs1, s1)" by (cases "step ev a s") auto
  obtain evs2 s2 where rn: "run ev as s1 = (evs2, s2)" by (cases "run ev as s1") auto
  from Cons.prems st rn have eq: "evs = evs1 @ evs2" "s' = s2" by auto
  from step_step_ok[OF st Cons.prems(2)] have ok: "crawl_inv s1" "same_config s s1"
    by (simp_all add: step_ok_def)
  have c: "edge_of ev s1 = edge_of ev s"
    using edge_of_config[OF ok(2)] by (rule ext)
  from step_edges[OF st Cons.prems(2)] Cons.IH[OF rn ok(1)]
  show ?case unfolding eq c by simp
qed

lemma crawl_trace_edges:
  assumes "initial s0" "crawl_trace ev s0 ro so sched = Inr (tr, s')"
  shows "edges s' = concat (map (edge_of ev s') (gets tr))" "map fst (gets tr) = visits tr"
proof -
  from assms(2) obtain evs0 s1 evs where
    seed: "prepare_seed_urls ev s0 ro so = Inr (evs0, s1)"
    and rn: "run ev sched (s1\<lparr>workers := replicate (nat (threads s1)) Waiting\<rparr>) = (evs, s')"
    and tr: "tr = evs0 @ evs"
    by (auto simp: crawl_trace_def split: sum.splits prod.splits)
  let ?s1 = "s1\<lparr>workers := replicate (nat (threads s1)) Waiting\<rparr>"
  note p0 = prepare_seed_urls_props[OF seed assms(1)]
  have p: "queue s1 = puts evs0" "enqueued s1 = fst ` set (puts evs0)"
     "distinct (map fst (puts evs0))" "gets evs0 = []" "visits evs0 = []"
     "visited s1 = {}" "pages s1 = []" "duplicate_map s1 = []" "edges s1 = []"
    using p0 by simp_all
  have inv1: "crawl_inv ?s1"
    by (rule initial_seeded_inv[OF p(1,2,3,6,7,8)])
  from run_step_ok[OF rn inv1] have "same_config ?s1 s'" by (simp add: step_ok_def)
  then have c: "edge_of ev s' = edge_of ev ?s1"
    using edge_of_config by blast
  from run_edges[OF rn inv1]
  show "edges s' = concat (map (edge_of ev s') (gets tr))" "map fst (gets tr) = visits tr"
    unfolding tr c by (simp_all add: p)
qed

lemma example_robots_init:
  "CrawlManager_init example_robots_env ''http://example.com/'' 1 1 ''sfrog'' = Inr example_manager"
proof -
  have "canonicalize (cpython_3_11_10 (\<lambda>h. False)) ''http://example.com/'' = Inr ''http://example.com/''"
    by code_simp
  then show ?thesis
    by (simp add: CrawlManager_init_def example_robots_env_def example_env_def example_manager_def)
qed

lemma example_robots_trace:
  "(case crawl_trace example_robots_env example_manager robots_response (TimedOut 0)
           example_robots_schedule of
      Inl e \<Rightarrow> False
    | Inr (tr, s') \<Rightarrow>
        gets tr = [(''http://example.com/'', 0, None),
                   (''http://example.com/a'', 1, Some ''http://example.com/''),
                   (''http://example.com/c'', 1, Some ''http://example.com/''),
                   (''http://example.com/b'', 2, Some ''http://example.com/c'')] \<and>
        edges s' = [(''http://example.com/'', ''http://example.com/c'')] \<and>
        max_depth s' = 1 \<and>
        \<not> robots_allows example_robots_env s' ''http://example.com/a'' \<and>
        robots_allows example_robots_env s' ''http://example.com/c'' \<and>
        robots_allows example_robots_env s' ''http://example.com/b'' \<and>
        drained s')"
  by code_simp

lemma harvest_links:
  assumes "harvest ev u d links s = (r, evs, s')" "visited s \<subseteq> enqueued s"
  shows "\<exists>ps. evs = map Put ps \<and> (\<forall>(l, d', src) \<in> set ps. d' = d + 1 \<and> src = Some u) \<and>
           distinct (map fst ps) \<and>
           set (map fst ps) \<subseteq> set (filter (\<lambda>l. harvestable ev (base_url s) l \<and> l \<notin> enqueued s) links) \<and>
           (checks_return ev (base_url s) links \<longrightarrow>
              set (filter (\<lambda>l. harvestable ev (base_url s) l \<and> l \<notin> enqueued s) links) \<subseteq> set (map fst ps))"
  using assms
proof (induction links arbitrary: s r evs s')
  case Nil
  then show ?case by simp
next
  case (Cons link links)
  let ?H = "\<lambda>s l. harvestable ev (base_url s) l \<and> l \<notin> enqueued s"
  have skip: ?case
    if h: "harvest ev u d links s = (r, evs, s')" and n: "\<not> ?H s link"
  proof -
    from Cons.IH[OF h Cons.prems(2)] obtain ps where
      ps: "evs = map Put ps" "\<forall>(l, d', src) \<in> set ps. d' = d + 1 \<and> src = Some u"
        "distinct (map fst ps)"
        "set (map fst ps) \<subseteq> set (filter (?H s) links)"
        "checks_return ev (base_url s) links \<longrightarrow> set (filter (?H s) links) \<subseteq> set (map fst ps)"
      by blast
    have f: "filter (?H s) (link # links) = filter (?H s) links" using n by simp
    have c: "checks_return ev (base_url s) (link # links) \<Longrightarrow> checks_return ev (base_url s) links"
      by (simp add: checks_return_def)
    show ?thesis
      unfolding f using ps c by blast
  qed
  show ?case
  proof (cases "is_allowed_scheme (urllib ev) link")
    case (Inl e)
    with Cons.prems have "evs = []" by auto
    moreover have "\<not> checks_return ev (base_url s) (link # links)"
      using Inl by (simp add: checks_return_def)
    ultimately show ?thesis by simp
  next
    case (Inr allowed)
    show ?thesis
    proof (cases "allowed \<and> link \<notin> visited s \<and> link \<notin> enqueued s")
      case False
      with Inr Cons.prems have h: "harvest ev u d links s = (r, evs, s')"
        by (auto split: if_splits)
      have "\<not> ?H s link"
        using False Inr Cons.prems(2) by (auto simp: harvestable_def)
      from skip[OF h this] show ?thesis .
    next
      case True
      show ?thesis
      proof (cases "is_same_domain (urllib ev) link (base_url s)")
        case (Inl e)
        with True Inr Cons.prems have "evs = []" by auto
        moreover have "\<not> checks_return ev (base_url s) (link # links)"
          using Inl by (simp add: checks_return_def)
        ultimately show ?thesis by simp
      next
        case same: (Inr same)
        show ?thesis
        proof (cases same)
          case False
          with same True Inr Cons.prems have h: "harvest ev u d links s = (r, evs, s')"
            by (auto split: if_splits)
          have "\<not> ?H s link"
            using False same by (auto simp: harvestable_def)
          from skip[OF h this] show ?thesis .
        next
          case T: True
          let ?s1 = "put_entry (link, d + 1, Some u) s"
          obtain r1 evs1 s1 where h: "harvest ev u d links ?s1 = (r1, evs1, s1)"
            by (cases "harvest ev u d links ?s1") auto
          with T same True Inr Cons.prems
          have eq: "evs = Put (link, d + 1, Some u) # evs1"
            by auto
          have v1: "visited ?s1 \<subseteq> enqueued ?s1" using Cons.prems(2) by auto
          from Cons.IH[OF h v1] obtain ps where
            ps: "evs1 = map Put ps" "\<forall>(l, d', src) \<in> set ps. d' = d + 1 \<and> src = Some u"
              "distinct (map fst ps)"
              "set (map fst ps) \<subseteq> set (filter (?H ?s1) links)"
              "checks_return ev (base_url ?s1) links \<longrightarrow> set (filter (?H ?s1) links) \<subseteq> set (map fst ps)"
            by blast
          have hl: "?H s link"
            using T same True Inr by (simp add: harvestable_def)
          have H1: "?H ?s1 l = (?H s l \<and> l \<noteq> link)" for l by auto
          define F where "F = set (filter (?H s) links)"
          define F1 where "F1 = set (filter (?H ?s1) links)"
          have F1: "F1 = F - {link}" unfolding F_def F1_def using H1 by auto
          have Fc: "set (filter (?H s) (link # links)) = insert link F"
            unfolding F_def using hl by auto
          define P where "P = set (map fst ps)"
          have a: "evs = map Put ((link, d + 1, Some u) # ps)" by (simp add: eq ps(1))
          have b: "\<forall>(l, d', src) \<in> set ((link, d + 1, Some u) # ps). d' = d + 1 \<and> src = Some u"
            using ps(2) by simp
          have "link \<notin> P" using ps(4) unfolding P_def F1_def[symmetric] F1 by blast
          then have c: "distinct (map fst ((link, d + 1, Some u) # ps))"
            using ps(3) by (simp add: P_def)
          have Pc: "set (map fst ((link, d + 1, Some u) # ps)) = insert link P"
            by (simp add: P_def)
          have d: "insert link P \<subseteq> insert link F"
            using ps(4) unfolding P_def[symmetric] F1_def[symmetric] F1 by blast
          have e: "checks_return ev (base_url s) (link # links) \<longrightarrow> insert link F \<subseteq> insert link P"
          proof
            assume "checks_return ev (base_url s) (link # links)"
            then have "checks_return ev (base_url ?s1) links" by (simp add: checks_return_def)
            with ps(5) have "F1 \<subseteq> P" unfolding P_def F1_def by blast
            then show "insert link F \<subseteq> insert link P" unfolding F1 by blast
          qed
          show ?thesis
            apply (rule exI[of _ "(link, d + 1, Some u) # ps"])
            unfolding Fc Pc using a b c d e by blast
        qed
      qed
    qed
  qed
qed


lemma links_enqueued_none:
  "pd_internal_links page = [] \<or> \<not> callback_returns ev page \<Longrightarrow>
   links_enqueued ev base (enq, (u, d, s0), page, [])"
  by (auto simp: links_enqueued_def)

lemma after_fetch_events:
  assumes "process_url_after_fetch ev s (url, d, src) outcome = (r, evs, s')"
    and "visited s \<subseteq> enqueued s"
  shows "(evs = [] \<and> pages s' = pages s) \<or>
         (\<exists>page ps. evs = Emit (url, d, src) page # map Put ps \<and>
            pages s' = pages s @ [page] \<and>
            links_enqueued ev (base_url s) (enqueued s, (url, d, src), page, ps))"
proof (cases "fetch url outcome")
  case (Inl err)
  with assms show ?thesis by (simp add: process_url_after_fetch_def)
next
  case (Inr result)
  obtain parsed page s3 where ep: "emit_page ev s url result = (parsed, page, s3)"
    by (cases "emit_page ev s url result") auto
  note props = emit_page_props[OF ep]
  from props(3) obtain dm bl where
    s3: "s3 = s\<lparr>duplicate_map := dm, pages := pages s @ [page], broken_links := bl\<rparr>"
    by blast
  note s3s = emitted_state_simps[OF s3]
  show ?thesis
  proof (cases "callback_returns ev page")
    case False
    with assms(1) have "evs = [Emit (url, d, src) page]" "s' = s3"
      by (auto simp: process_url_after_fetch_def Inr ep callback_returns_def
          split: option.splits)
    with False links_enqueued_none[of page ev] s3s(6) show ?thesis by auto
  next
    case cb: True
    show ?thesis
    proof (cases parsed)
      case None
      with assms(1) cb have "evs = [Emit (url, d, src) page]" "s' = s3"
        by (auto simp: process_url_after_fetch_def Inr ep callback_returns_def
            split: option.splits)
      moreover have "pd_internal_links page = []" using props(2) None by simp
      ultimately show ?thesis using links_enqueued_none[of page ev] s3s(6) by auto
    next
      case (Some p)
      obtain r1 evs1 s4 where hv: "harvest ev url d (pd_internal_links page) s3 = (r1, evs1, s4)"
        by (cases "harvest ev url d (pd_internal_links page) s3") auto
      have pl: "pp_internal_links p = pd_internal_links page" using props(2) Some by simp
      from assms(1) cb Some hv
      have eq: "evs = Emit (url, d, src) page # evs1" "s' = s4"
        by (auto simp: process_url_after_fetch_def Inr ep callback_returns_def pl
            split: option.splits)
      have v3: "visited s3 \<subseteq> enqueued s3" using assms(2) by (simp add: s3s)
      from harvest_links[OF hv v3] obtain ps where
        ps: "evs1 = map Put ps" "\<forall>(l, d', src) \<in> set ps. d' = d + 1 \<and> src = Some url"
          "distinct (map fst ps)"
          "set (map fst ps) \<subseteq> set (filter (\<lambda>l. harvestable ev (base_url s3) l \<and> l \<notin> enqueued s3) (pd_internal_links page))"
          "checks_return ev (base_url s3) (pd_internal_links page) \<longrightarrow>
              set (filter (\<lambda>l. harvestable ev (base_url s3) l \<and> l \<notin> enqueued s3) (pd_internal_links page)) \<subseteq> set (map fst ps)"
        by blast
      have le: "links_enqueued ev (base_url s) (enqueued s, (url, d, src), page, ps)"
        unfolding links_enqueued_def prod.case using ps(2,3,4,5) unfolding s3s by blast
      have "pages s' = pages s @ [page]"
        using harvest_frame[OF hv] s3s(6) eq(2) by simp
      with eq(1) ps(1) le show ?thesis by blast
    qed
  qed
qed

lemma leading_puts_map_Put [simp]: "leading_puts (map Put ps @ tr) = ps @ leading_puts tr"
  by (induction ps) simp_all

lemma harvested_map_Put [simp]:
  "harvested enq (map Put ps @ tr) = harvested (enq \<union> fst ` set ps) tr"
  by (induction ps arbitrary: enq) simp_all

lemma puts_map_Put [simp]:
  "puts (map Put ps) = ps" "gets (map Put ps) = []" "visits (map Put ps) = []"
  "emits (map Put ps) = []"
  by (induction ps) simp_all

lemma step_links_refl: "step_links ev s [] s"
  by (simp add: step_links_def)

lemma step_step_links:
  assumes "step ev a s = (evs, s')" "crawl_inv s"
  shows "step_links ev s evs s'"
proof (cases a)
  case (Take w)
  show ?thesis
  proof (cases "w < length (workers s) \<and> workers s ! w = Waiting \<and> queue s \<noteq> []")
    case False
    with assms Take have "evs = []" "s' = s" by (auto simp: step_def)
    then show ?thesis by (simp add: step_links_refl)
  next
    case True
    then obtain e q where q: "queue s = e # q" by (cases "queue s") auto
    obtain cont evs1 s1 where bf: "process_url_before_fetch ev (s\<lparr>queue := q\<rparr>) e = (cont, evs1, s1)"
      by (cases "process_url_before_fetch ev (s\<lparr>queue := q\<rparr>) e") auto
    from assms(1) Take True q bf
    have eq: "evs = Get e # evs1" "s' = (if cont then s1\<lparr>workers := (workers s1)[w := Fetching e]\<rparr> else s1)"
      by (auto simp: step_def)
    note f = before_fetch_frame[OF bf]
    have e1: "evs1 = [] \<or> evs1 = [Visit (fst e)]"
      using before_fetch_cases[of ev "s\<lparr>queue := q\<rparr>" "fst e" "fst (snd e)" "snd (snd e)" cont evs1 s1] bf
      by auto
    have st: "enqueued s' = enqueued s" "pages s' = pages s" using f by (simp_all add: eq)
    from e1 show ?thesis
      unfolding step_links_def eq(1) st by auto
  qed
next
  case (Done w outcome)
  show ?thesis
  proof (cases "w < length (workers s) \<and> (\<exists>e. workers s ! w = Fetching e)")
    case False
    with assms Done have "evs = []" "s' = s" by (auto simp: step_def split: worker.splits)
    then show ?thesis by (simp add: step_links_refl)
  next
    case True
    then obtain e where w: "w < length (workers s)" "workers s ! w = Fetching e" by blast
    obtain url d src where e: "e = (url, d, src)" by (cases e) auto
    obtain r evs1 s1 where af: "process_url_after_fetch ev s (url, d, src) outcome = (r, evs1, s1)"
      by (cases "process_url_after_fetch ev s (url, d, src) outcome") auto
    from assms(1) Done w af e
    have eq: "evs = evs1" "s' = s1\<lparr>workers := (workers s1)[w := (case r of None \<Rightarrow> Waiting | Some err \<Rightarrow> Failed err)]\<rparr>"
      by (auto simp: step_def)
    from assms(2) have v: "visited s \<subseteq> enqueued s"
      by (simp add: crawl_inv_def frontier_inv_def)
    have en: "enqueued s' = enqueued s \<union> fst ` set (puts evs)"
      using after_fetch_frame[OF af] by (simp add: eq)
    have pg: "pages s' = pages s1" by (simp add: eq)
    from after_fetch_events[OF af v] show ?thesis
    proof (elim disjE exE conjE)
      assume "evs1 = []" "pages s1 = pages s"
      then show ?thesis
        unfolding step_links_def using en by (simp add: eq)
    next
      fix page ps
      assume a: "evs1 = Emit (url, d, src) page # map Put ps"
        "pages s1 = pages s @ [page]"
        "links_enqueued ev (base_url s) (enqueued s, (url, d, src), page, ps)"
      have en': "enqueued s' = enqueued s \<union> fst ` set ps"
        using en by (simp add: eq a(1))
      have 1: "pages s' = pages s @ map snd (emits evs)"
        by (simp add: pg a(2) eq(1) a(1))
      have 2: "leading_puts (evs @ tr) = []" for tr by (simp add: eq(1) a(1))
      have 3: "harvested (enqueued s) (evs @ tr) =
            [(enqueued s, (url, d, src), page, ps)] @ harvested (enqueued s') tr"
        if "leading_puts tr = []" for tr
        using that by (simp add: eq(1) a(1) en')
      have 4: "puts evs = concat (map (\<lambda>(enq, e, page, ps). ps) [(enqueued s, (url, d, src), page, ps)])"
        by (simp add: eq(1) a(1))
      show ?thesis
        unfolding step_links_def
      proof (intro conjI allI impI)
        show "pages s' = pages s @ map snd (emits evs)" by (rule 1)
      next
        fix tr show "leading_puts (evs @ tr) = []" by (rule 2)
      next
        fix tr assume "leading_puts tr = []"
        from 3[OF this] 4 a(3)
        show "\<exists>hs. harvested (enqueued s) (evs @ tr) = hs @ harvested (enqueued s') tr \<and>
               (\<forall>h \<in> set hs. links_enqueued ev (base_url s) h) \<and>
               puts evs = concat (map (\<lambda>(enq, e, page, ps). ps) hs)"
          by (intro exI[of _ "[(enqueued s, (url, d, src), page, ps)]"]) simp
      qed
    qed
  qed
qed

lemma run_links:
  "run ev sched s = (evs, s') \<Longrightarrow> crawl_inv s \<Longrightarrow>
     pages s' = pages s @ map snd (emits evs) \<and> leading_puts evs = [] \<and>
     (\<forall>h \<in> set (harvested (enqueued s) evs). links_enqueued ev (base_url s) h) \<and>
     puts evs = put_after_pages (enqueued s) evs"
proof (induction sched arbitrary: s evs s')
  case Nil
  then show ?case by (simp add: put_after_pages_def)
next
  case (Cons a as)
  obtain evs1 s1 where st: "step ev a s = (evs1, s1)" by (cases "step ev a s") auto
  obtain evs2 s2 where rn: "run ev as s1 = (evs2, s2)" by (cases "run ev as s1") auto
  from Cons.prems st rn have eq: "evs = evs1 @ evs2" "s' = s2" by auto
  from step_step_ok[OF st Cons.prems(2)] have ok: "crawl_inv s1" "same_config s s1"
    by (simp_all add: step_ok_def)
  have b: "base_url s1 = base_url s" using ok(2) by (simp add: same_config_def)
  from Cons.IH[OF rn ok(1)] have ih:
    "pages s2 = pages s1 @ map snd (emits evs2)" "leading_puts evs2 = []"
    "\<forall>h \<in> set (harvested (enqueued s1) evs2). links_enqueued ev (base_url s) h"
    "puts evs2 = put_after_pages (enqueued s1) evs2"
    unfolding b by simp_all
  from step_step_links[OF st Cons.prems(2)] ih(2) obtain hs where
    l: "pages s1 = pages s @ map snd (emits evs1)" "leading_puts (evs1 @ evs2) = []"
      "harvested (enqueued s) (evs1 @ evs2) = hs @ harvested (enqueued s1) evs2"
      "\<forall>h \<in> set hs. links_enqueued ev (base_url s) h"
      "puts evs1 = concat (map (\<lambda>(enq, e, page, ps). ps) hs)"
    unfolding step_links_def by blast
  have 1: "pages s' = pages s @ map snd (emits evs)"
    by (simp add: eq ih(1) l(1))
  have 2: "leading_puts evs = []" by (simp add: eq l(2))
  have 3: "\<forall>h \<in> set (harvested (enqueued s) evs). links_enqueued ev (base_url s) h"
    unfolding eq l(3) using l(4) ih(3) by auto
  have 4: "puts evs = put_after_pages (enqueued s) evs"
    unfolding eq put_after_pages_def l(3) using l(5) ih(4)
    by (simp add: put_after_pages_def)
  show ?case by (intro conjI 1 2 3 4)
qed

lemma only_puts: "gets tr = [] \<Longrightarrow> visits tr = [] \<Longrightarrow> emits tr = [] \<Longrightarrow> tr = map Put (puts tr)"
proof (induction tr)
  case Nil
  then show ?case by simp
next
  case (Cons x tr)
  then show ?case by (cases x) simp_all
qed

lemma crawl_trace_links:
  assumes "initial s0" "crawl_trace ev s0 ro so sched = Inr (tr, s')"
  shows "puts tr = leading_puts tr @ put_after_pages {} tr"
    and "\<forall>(l, d, src) \<in> set (leading_puts tr). d = 0 \<and> src = None"
    and "\<forall>h \<in> set (harvested {} tr). links_enqueued ev (base_url s') h"
    and "pages s' = map snd (emits tr)"
proof -
  from assms(2) obtain evs0 s1 evs where
    seed: "prepare_seed_urls ev s0 ro so = Inr (evs0, s1)"
    and rn: "run ev sched (s1\<lparr>workers := replicate (nat (threads s1)) Waiting\<rparr>) = (evs, s')"
    and tr: "tr = evs0 @ evs"
    by (auto simp: crawl_trace_def split: sum.splits prod.splits)
  let ?s1 = "s1\<lparr>workers := replicate (nat (threads s1)) Waiting\<rparr>"
  note p0 = prepare_seed_urls_props[OF seed assms(1)]
  have p: "queue s1 = puts evs0" "enqueued s1 = fst ` set (puts evs0)"
     "distinct (map fst (puts evs0))" "gets evs0 = []" "visits evs0 = []" "emits evs0 = []"
     "\<forall>p \<in> set (puts evs0). snd p = (0, None)"
     "visited s1 = {}" "pages s1 = []" "duplicate_map s1 = []"
    using p0 by simp_all
  have inv1: "crawl_inv ?s1"
    by (rule initial_seeded_inv[OF p(1,2,3,8,9,10)])
  from run_step_ok[OF rn inv1] have "same_config ?s1 s'" by (simp add: step_ok_def)
  then have b: "base_url s' = base_url s1" by (simp add: same_config_def)
  note r = run_links[OF rn inv1]
  define ps0 where "ps0 = puts evs0"
  have e0: "evs0 = map Put ps0" unfolding ps0_def by (rule only_puts[OF p(4,5,6)])
  have lp: "leading_puts tr = ps0" unfolding tr e0 using r by simp
  have hv: "harvested {} tr = harvested (enqueued ?s1) evs"
    unfolding tr e0 by (simp add: p(2) ps0_def)
  show "puts tr = leading_puts tr @ put_after_pages {} tr"
    unfolding lp put_after_pages_def hv using r
    by (simp add: tr e0 put_after_pages_def)
  show "\<forall>(l, d, src) \<in> set (leading_puts tr). d = 0 \<and> src = None"
    unfolding lp ps0_def using p(7) by auto
  show "\<forall>h \<in> set (harvested {} tr). links_enqueued ev (base_url s') h"
    unfolding hv b using r by simp
  show "pages s' = map snd (emits tr)"
    using r by (simp add: tr p(6,9))
qed


lemma example_links:
  "(case crawl_trace example_env example_manager (TimedOut 0) (TimedOut 0) example_schedule of
      Inl e \<Rightarrow> False
    | Inr (tr, s') \<Rightarrow>
        leading_puts tr = [(''http://example.com/'', 0, None)] \<and>
        map (\<lambda>(enq, e, page, ps). (e, pd_internal_links page, ps)) (harvested {} tr) =
          [((''http://example.com/'', 0, None),
            [''http://example.com/a'', ''http://example.com/c''],
            [(''http://example.com/a'', 1, Some ''http://example.com/''),
             (''http://example.com/c'', 1, Some ''http://example.com/'')]),
           ((''http://example.com/a'', 1, Some ''http://example.com/''),
            [''http://example.com/b''],
            [(''http://example.com/b'', 2, Some ''http://example.com/a'')]),
           ((''http://example.com/c'', 1, Some ''http://example.com/''),
            [''http://example.com/b''],
            [])] \<and>
        list_all (\<lambda>(enq, e, page, ps).
                    callback_returns example_env page \<and>
                    checks_return example_env (base_url s') (pd_internal_links page))
          (harvested {} tr) \<and>
        length (pages s') = 3 \<and> max_depth s' = 1 \<and>
        map (\<lambda>((u, d, s0), page). d) (emits tr) = [0, 1, 1])"
  by code_simp

text \<open>
  C1. In every crawl, under every schedule of the workers and every answer of the
  network, no URL is put on the frontier twice and no URL passes the visited check of
  \<open>_process_url\<close> twice; \<open>enqueued\<close> is exactly the set of URLs put and
  \<open>visited\<close> exactly the set of URLs that passed the check.
\<close>

theorem url_enqueued_and_visited_at_most_once:
  assumes "CrawlManager_init ev base md th ua = Inr s0"
    and "crawl_trace ev s0 robots_outcome sitemap_outcome schedule = Inr (tr, s')"
  shows "distinct (map fst (puts tr)) \<and> enqueued s' = fst ` set (puts tr) \<and>
         distinct (visits tr) \<and> visited s' = set (visits tr)"
  using crawl_trace_props[OF init_initial[OF assms(1)] assms(2)] by blast

text \<open>The theorem above at the example site.\<close>

theorem url_enqueued_and_visited_at_most_once_witness:
  "\<exists>tr s'. CrawlManager_init example_env ''http://example.com/'' 1 1 ''sfrog'' = Inr example_manager \<and>
     crawl_trace example_env example_manager (TimedOut 0) (TimedOut 0) example_schedule = Inr (tr, s') \<and>
     length (puts tr) = 4 \<and> length (visits tr) = 4 \<and>
     distinct (map fst (puts tr)) \<and> enqueued s' = fst ` set (puts tr) \<and>
     distinct (visits tr) \<and> visited s' = set (visits tr)"
proof -
  from example_trace obtain tr s' where
    t: "crawl_trace example_env example_manager (TimedOut 0) (TimedOut 0) example_schedule = Inr (tr, s')"
    and l: "length (puts tr) = 4" "length (visits tr) = 4"
    by (auto split: sum.splits prod.splits)
  from url_enqueued_and_visited_at_most_once[OF example_init t] example_init t l
  show ?thesis by blast
qed

text \<open>
  C2, as stated, fails. On the example site with \<open>max_depth = 1\<close> the entry for
  \<open>/b\<close> is taken at depth 2 with source \<open>/a\<close>, is skipped by the depth limit, and
  the pair (\<open>/a\<close>, \<open>/b\<close>) is not in \<open>edges\<close>. On the site whose robots rules
  deny \<open>/a\<close> the entry for \<open>/a\<close> is taken at depth 1 with the front page as
  source, is denied, and the pair (front page, \<open>/a\<close>) is not in \<open>edges\<close>.
\<close>

theorem edge_recorded_for_every_dequeued_source_counterexample:
  "(case crawl_trace example_env example_manager (TimedOut 0) (TimedOut 0) example_schedule of
      Inl e \<Rightarrow> False
    | Inr (tr, s') \<Rightarrow>
        (''http://example.com/b'', 2, Some ''http://example.com/a'') \<in> set (gets tr) \<and>
        robots_allows example_env s' ''http://example.com/b'' \<and>
        max_depth s' = 1 \<and>
        (''http://example.com/a'', ''http://example.com/b'') \<notin> set (edges s')) \<and>
   (case crawl_trace example_robots_env example_manager robots_response (TimedOut 0)
           example_robots_schedule of
      Inl e \<Rightarrow> False
    | Inr (tr, s') \<Rightarrow>
        (''http://example.com/a'', 1, Some ''http://example.com/'') \<in> set (gets tr) \<and>
        \<not> robots_allows example_robots_env s' ''http://example.com/a'' \<and>
        max_depth s' = 1 \<and>
        (''http://example.com/'', ''http://example.com/a'') \<notin> set (edges s'))"
  by code_simp

text \<open>
  C2, amended. In every crawl, under every schedule and every answer of the network,
  \<open>edges\<close> is the list, in the order the entries are taken, of the pairs
  (source, url) of the entries (url, depth, source) taken with a true source, a URL
  that robots allows and a depth within \<open>max_depth\<close>. So for an entry taken with a
  true source, (source, url) is in \<open>edges\<close> exactly when robots allows the URL and
  the depth is within \<open>max_depth\<close>: it is recorded whatever the fetch answers, and
  an entry denied by robots or skipped by the depth limit records no edge.
\<close>

theorem edge_recorded_iff_allowed_and_within_depth:
  assumes "CrawlManager_init ev base md th ua = Inr s0"
    and "crawl_trace ev s0 robots_outcome sitemap_outcome schedule = Inr (tr, s')"
  shows "edges s' = concat (map (edge_of ev s') (gets tr)) \<and>
         (\<forall>(url, d, source) \<in> set (gets tr).
            truthy_str source \<longrightarrow>
              ((the source, url) \<in> set (edges s')) =
              (robots_allows ev s' url \<and> d \<le> max_depth s'))"
proof -
  note i = init_initial[OF assms(1)]
  note e = crawl_trace_edges[OF i assms(2)]
  have "distinct (visits tr)" using crawl_trace_props[OF i assms(2)] by blast
  then have dg: "distinct (map fst (gets tr))" by (simp add: e(2))
  have "((the source, url) \<in> set (edges s')) = (robots_allows ev s' url \<and> d \<le> max_depth s')"
    if g: "(url, d, source) \<in> set (gets tr)" and t: "truthy_str source" for url d source
  proof
    assume "robots_allows ev s' url \<and> d \<le> max_depth s'"
    with t have "edge_of ev s' (url, d, source) = [(the source, url)]"
      by (simp add: edge_of_def)
    with g show "(the source, url) \<in> set (edges s')"
      unfolding e(1) by force
  next
    assume "(the source, url) \<in> set (edges s')"
    then obtain e' where e': "e' \<in> set (gets tr)" "(the source, url) \<in> set (edge_of ev s' e')"
      unfolding e(1) by auto
    obtain url' d' src' where c: "e' = (url', d', src')" by (cases e') auto
    from e'(2) have u: "url' = url" and ok: "robots_allows ev s' url'" "d' \<le> max_depth s'"
      unfolding c by (auto simp: edge_of_def split: if_splits)
    from e'(1) g have "(d', src') = (d, source)"
      unfolding c u using eq_key_imp_eq_value[OF dg] by blast
    with ok u show "robots_allows ev s' url \<and> d \<le> max_depth s'" by simp
  qed
  with e(1) show ?thesis by blast
qed

text \<open>The theorem above at the site whose robots rules deny \<open>/a\<close>: an entry that is
  denied, one that is recorded, and one that is skipped by the depth limit.\<close>

theorem edge_recorded_iff_allowed_and_within_depth_witness:
  "\<exists>tr s'. CrawlManager_init example_robots_env ''http://example.com/'' 1 1 ''sfrog'' = Inr example_manager \<and>
     crawl_trace example_robots_env example_manager robots_response (TimedOut 0)
       example_robots_schedule = Inr (tr, s') \<and>
     gets tr = [(''http://example.com/'', 0, None),
                (''http://example.com/a'', 1, Some ''http://example.com/''),
                (''http://example.com/c'', 1, Some ''http://example.com/''),
                (''http://example.com/b'', 2, Some ''http://example.com/c'')] \<and>
     truthy_str (Some ''http://example.com/'') \<and> truthy_str (Some ''http://example.com/c'') \<and>
     \<not> robots_allows example_robots_env s' ''http://example.com/a'' \<and>
     robots_allows example_robots_env s' ''http://example.com/c'' \<and>
     robots_allows example_robots_env s' ''http://example.com/b'' \<and>
     max_depth s' = 1 \<and>
     edges s' = concat (map (edge_of example_robots_env s') (gets tr)) \<and>
     (''http://example.com/'', ''http://example.com/a'') \<notin> set (edges s') \<and>
     (''http://example.com/'', ''http://example.com/c'') \<in> set (edges s') \<and>
     (''http://example.com/c'', ''http://example.com/b'') \<notin> set (edges s')"
proof -
  from example_robots_trace obtain tr s' where
    t: "crawl_trace example_robots_env example_manager robots_response (TimedOut 0)
          example_robots_schedule = Inr (tr, s')"
    and g: "gets tr = [(''http://example.com/'', 0, None),
                (''http://example.com/a'', 1, Some ''http://example.com/''),
                (''http://example.com/c'', 1, Some ''http://example.com/''),
                (''http://example.com/b'', 2, Some ''http://example.com/c'')]"
    and r: "\<not> robots_allows example_robots_env s' ''http://example.com/a''"
      "robots_allows example_robots_env s' ''http://example.com/c''"
      "robots_allows example_robots_env s' ''http://example.com/b''"
    and m: "max_depth s' = 1"
    by (auto split: sum.splits prod.splits)
  have ts: "truthy_str (Some ''http://example.com/'')" "truthy_str (Some ''http://example.com/c'')"
    by (simp_all add: truthy_str_def)
  note th = edge_recorded_iff_allowed_and_within_depth[OF example_robots_init t]
  from th have 1: "edges s' = concat (map (edge_of example_robots_env s') (gets tr))" by blast
  from th g ts r m
  have 2: "(''http://example.com/'', ''http://example.com/a'') \<notin> set (edges s')"
    "(''http://example.com/'', ''http://example.com/c'') \<in> set (edges s')"
    "(''http://example.com/c'', ''http://example.com/b'') \<notin> set (edges s')"
    by fastforce+
  from example_robots_init t g ts r m 1 2 show ?thesis by blast
qed

text \<open>
  C4. In every crawl, every entry put on the frontier is a seed, put at depth 0 without
  source before any entry is taken, or is put right after a page. What is put right
  after the page emitted for an entry (u, d, _) has depth d + 1 and source u, and its
  URLs are links of the page on the host of the base URL, of an allowed scheme and not
  enqueued before: all of them, each once, unless an exception ends the loop over the
  links. \<open>pages\<close> holds exactly the pages emitted, and every page is emitted for an
  entry whose depth is at most \<open>max_depth\<close>.
\<close>

theorem links_enqueued_one_level_deeper_and_pages_within_depth:
  assumes "CrawlManager_init ev base md th ua = Inr s0"
    and "crawl_trace ev s0 robots_outcome sitemap_outcome schedule = Inr (tr, s')"
  shows "puts tr = leading_puts tr @ put_after_pages {} tr \<and>
         (\<forall>(l, d, src) \<in> set (leading_puts tr). d = 0 \<and> src = None) \<and>
         (\<forall>h \<in> set (harvested {} tr). links_enqueued ev (base_url s') h) \<and>
         pages s' = map snd (emits tr) \<and>
         (\<forall>((u, d, s0), page) \<in> set (emits tr). d \<le> max_depth s')"
proof -
  note i = init_initial[OF assms(1)]
  note l = crawl_trace_links[OF i assms(2)]
  from crawl_trace_props[OF i assms(2)]
  have "depth_ok (max_depth s0) tr" "max_depth s' = max_depth s0" by blast+
  then have "\<forall>((u, d, s0), page) \<in> set (emits tr). d \<le> max_depth s'"
    by (simp add: depth_ok_def)
  with l show ?thesis by blast
qed

text \<open>The theorem above at the example site.\<close>

theorem links_enqueued_one_level_deeper_and_pages_within_depth_witness:
  "\<exists>tr s'. CrawlManager_init example_env ''http://example.com/'' 1 1 ''sfrog'' = Inr example_manager \<and>
     crawl_trace example_env example_manager (TimedOut 0) (TimedOut 0) example_schedule = Inr (tr, s') \<and>
     leading_puts tr = [(''http://example.com/'', 0, None)] \<and>
     map (\<lambda>(enq, e, page, ps). (e, pd_internal_links page, ps)) (harvested {} tr) =
       [((''http://example.com/'', 0, None),
         [''http://example.com/a'', ''http://example.com/c''],
         [(''http://example.com/a'', 1, Some ''http://example.com/''),
          (''http://example.com/c'', 1, Some ''http://example.com/'')]),
        ((''http://example.com/a'', 1, Some ''http://example.com/''),
         [''http://example.com/b''],
         [(''http://example.com/b'', 2, Some ''http://example.com/a'')]),
        ((''http://example.com/c'', 1, Some ''http://example.com/''),
         [''http://example.com/b''],
         [])] \<and>
     list_all (\<lambda>(enq, e, page, ps).
                 callback_returns example_env page \<and>
                 checks_return example_env (base_url s') (pd_internal_links page))
       (harvested {} tr) \<and>
     puts tr = leading_puts tr @ put_after_pages {} tr \<and>
     list_all (links_enqueued example_env (base_url s')) (harvested {} tr) \<and>
     pages s' = map snd (emits tr) \<and> length (pages s') = 3 \<and> max_depth s' = 1 \<and>
     map (\<lambda>((u, d, s0), page). d) (emits tr) = [0, 1, 1]"
proof -
  from example_links obtain tr s' where
    t: "crawl_trace example_env example_manager (TimedOut 0) (TimedOut 0) example_schedule = Inr (tr, s')"
    and g: "leading_puts tr = [(''http://example.com/'', 0, None)]"
      "map (\<lambda>(enq, e, page, ps). (e, pd_internal_links page, ps)) (harvested {} tr) =
       [((''http://example.com/'', 0, None),
         [''http://example.com/a'', ''http://example.com/c''],
         [(''http://example.com/a'', 1, Some ''http://example.com/''),
          (''http://example.com/c'', 1, Some ''http://example.com/'')]),
        ((''http://example.com/a'', 1, Some ''http://example.com/''),
         [''http://example.com/b''],
         [(''http://example.com/b'', 2, Some ''http://example.com/a'')]),
        ((''http://example.com/c'', 1, Some ''http://example.com/''),
         [''http://example.com/b''],
         [])]"
      "list_all (\<lambda>(enq, e, page, ps).
                 callback_returns example_env page \<and>
                 checks_return example_env (base_url s') (pd_internal_links page))
       (harvested {} tr)"
      "length (pages s') = 3" "max_depth s' = 1"
      "map (\<lambda>((u, d, s0), page). d) (emits tr) = [0, 1, 1]"
    by (auto split: sum.splits prod.splits)
  note th = links_enqueued_one_level_deeper_and_pages_within_depth[OF example_init t]
  from th have 1: "puts tr = leading_puts tr @ put_after_pages {} tr" by blast
  from th have 2: "list_all (links_enqueued example_env (base_url s')) (harvested {} tr)"
    unfolding list_all_iff by blast
  from th have 3: "pages s' = map snd (emits tr)" by blast
  show ?thesis
    by (intro exI[of _ tr] exI[of _ s'] conjI example_init t g 1 2 3)
qed

lemma map_of_filter_SomeD:
  "map_of (filter P al) k = Some v \<Longrightarrow> (k, v) \<in> set al \<and> P (k, v)"
  by (auto dest: map_of_SomeD)

text \<open>
  C5. In the result that \<open>crawl()\<close> returns, every list in \<open>duplicate_map\<close> has at
  least two URLs, and every URL listed under a hash h has a page in \<open>pages\<close> with that
  URL and content hash h.
\<close>

theorem duplicate_map_entries_have_two_urls_with_pages:
  assumes "CrawlManager_init ev base md th ua = Inr s0"
    and "crawl ev s0 robots_outcome sitemap_outcome schedule = Some (Inr res)"
  shows "\<forall>h urls. map_of (cr_duplicate_map res) h = Some urls \<longrightarrow>
           2 \<le> length urls \<and>
           (\<forall>u \<in> set urls. \<exists>p \<in> set (cr_pages res). pd_url p = u \<and> pd_content_hash p = Some h)"
proof -
  from assms(2) obtain tr s' where
    t: "crawl_trace ev s0 robots_outcome sitemap_outcome schedule = Inr (tr, s')"
    and res: "res = crawl_result s'"
    by (auto simp: crawl_def split: sum.splits prod.splits if_splits)
  from crawl_trace_props[OF init_initial[OF assms(1)] t] have "dup_inv s'"
    by (simp add: crawl_inv_def)
  then have d: "\<And>h urls u. (h, urls) \<in> set (duplicate_map s') \<Longrightarrow> u \<in> set urls \<Longrightarrow>
      \<exists>p \<in> set (pages s'). pd_url p = u \<and> pd_content_hash p = Some h"
    unfolding dup_inv_def by fastforce
  show ?thesis
  proof (intro allI impI)
    fix h urls
    assume "map_of (cr_duplicate_map res) h = Some urls"
    then have "map_of (filter (\<lambda>(k, v). length v > 1) (duplicate_map s')) h = Some urls"
      by (simp add: res crawl_result_def)
    from map_of_filter_SomeD[OF this]
    have m: "(h, urls) \<in> set (duplicate_map s')" and l: "length urls > 1" by auto
    from d[OF m] l show "2 \<le> length urls \<and>
           (\<forall>u \<in> set urls. \<exists>p \<in> set (cr_pages res). pd_url p = u \<and> pd_content_hash p = Some h)"
      by (simp add: res crawl_result_def)
  qed
qed

lemma example_crawl:
  "(case crawl example_env example_manager (TimedOut 0) (TimedOut 0) example_schedule of
      Some (Inr res) \<Rightarrow>
        map_of (cr_duplicate_map res) ''same'' = Some [''http://example.com/a'', ''http://example.com/c'']
    | _ \<Rightarrow> False)"
  by code_simp

text \<open>The theorem above at the example site.\<close>

theorem duplicate_map_entries_have_two_urls_with_pages_witness:
  "\<exists>res. CrawlManager_init example_env ''http://example.com/'' 1 1 ''sfrog'' = Inr example_manager \<and>
     crawl example_env example_manager (TimedOut 0) (TimedOut 0) example_schedule = Some (Inr res) \<and>
     map_of (cr_duplicate_map res) ''same'' = Some [''http://example.com/a'', ''http://example.com/c''] \<and>
     2 \<le> length [''http://example.com/a'', ''http://example.com/c''] \<and>
     (\<forall>u \<in> set [''http://example.com/a'', ''http://example.com/c''].
        \<exists>p \<in> set (cr_pages res). pd_url p = u \<and> pd_content_hash p = Some ''same'')"
proof -
  from example_crawl obtain res where
    c: "crawl example_env example_manager (TimedOut 0) (TimedOut 0) example_schedule = Some (Inr res)"
    and m: "map_of (cr_duplicate_map res) ''same'' = Some [''http://example.com/a'', ''http://example.com/c'']"
    by (auto split: option.splits sum.splits)
  from duplicate_map_entries_have_two_urls_with_pages[OF example_init c] m
  have "2 \<le> length [''http://example.com/a'', ''http://example.com/c''] \<and>
     (\<forall>u \<in> set [''http://example.com/a'', ''http://example.com/c''].
        \<exists>p \<in> set (cr_pages res). pd_url p = u \<and> pd_content_hash p = Some ''same'')"
    by blast
  with example_init c m show ?thesis by blast
qed

text \<open>
  C3. The seeding from the sitemap checks the host and \<open>enqueued\<close> only: a sitemap
  entry \<open>ftp://example.com/x\<close> on the base host is put on the frontier although
  \<open>is_allowed_scheme\<close> rejects it. The link harvest of \<open>_process_url\<close> applies the
  scheme filter; the seeding does not.
\<close>

theorem sitemap_seed_skips_scheme_filter:
  "(case prepare_seed_urls example_env example_manager (TimedOut 0)
           (Responded 200 [] ''ftp'' ''http://example.com/sitemap.xml'' 0) of
      Inl e \<Rightarrow> False
    | Inr (evs, s') \<Rightarrow>
        (''ftp://example.com/x'', 0, None) \<in> set (queue s') \<and>
        ''ftp://example.com/x'' \<in> enqueued s' \<and>
        is_allowed_scheme (urllib example_env) ''ftp://example.com/x'' = Inr False \<and>
        is_same_domain (urllib example_env) ''ftp://example.com/x'' (base_url example_manager) = Inr True)"
  by code_simp

text \<open>
  C8. \<open>fetch\<close> copies the header items into a plain dict, so the lookup is by exact
  name: for a response whose header is spelled \<open>content-type\<close> the lookup of
  \<open>Content-Type\<close> finds nothing and the gate of \<open>_maybe_parse_html\<close> lets a PDF
  through to the HTML parser, while the same response with the spelling
  \<open>Content-Type\<close> is not parsed.
\<close>

theorem fetch_headers_lookup_is_case_sensitive:
  "(case fetch ''http://example.com/f.pdf''
           (Responded 200 [(''content-type'', ''application/pdf'')] ''%PDF''
              ''http://example.com/f.pdf'' 0) of
      Inl e \<Rightarrow> False
    | Inr r \<Rightarrow>
        dict_get (fr_headers r) ''content-type'' [] = ''application/pdf'' \<and>
        dict_get (fr_headers r) ''Content-Type'' [] = [] \<and>
        maybe_parse_html example_env example_manager ''http://example.com/f.pdf'' r \<noteq> None) \<and>
   (case fetch ''http://example.com/f.pdf''
           (Responded 200 [(''Content-Type'', ''application/pdf'')] ''%PDF''
              ''http://example.com/f.pdf'' 0) of
      Inl e \<Rightarrow> False
    | Inr r \<Rightarrow>
        maybe_parse_html example_env example_manager ''http://example.com/f.pdf'' r = None)"
  by code_simp

text \<open>
  C10. The duplicate map of the result that \<open>crawl()\<close> assembles is
  \<open>summarize_duplicates\<close> applied to the manager's duplicate map: the comprehension
  in \<open>crawl()\<close> and the helper keep the same entries, those with more than one URL, in
  the same order.
\<close>

theorem crawl_duplicate_map_is_summarize_duplicates:
  "cr_duplicate_map (crawl_result s) = summarize_duplicates (duplicate_map s)"
  by (simp add: crawl_result_def summarize_duplicates_def)

subsection \<open>The sitemap parser\<close>






end
